theory Spec2Isabelle
  imports Main "HOL-Library.Multiset"
begin

section \<open>Data model of \<open>src/lib/ai.ts\<close>\<close>

text \<open>
  The engine in \<open>ai.ts\<close> works on the objects of the chess.js library: a \<open>Chess\<close> game, the
  \<open>Move\<close> records it generates and the pieces of its \<open>board()\<close> array. A piece carries a
  \<open>type\<close> (one of the six symbols \<open>p n b r q k\<close>, here \<open>Pawn\<close> to \<open>King\<close>) and a \<open>color\<close> (\<open>w\<close> or \<open>b\<close>).
\<close>

datatype color = White | Black

datatype piece_symbol = Pawn | Knight | Bishop | Rook | Queen | King

datatype piece = Piece (type: piece_symbol) (color: color)

text \<open>
  \<open>game.board()\<close> is an array of 8 rows of 8 entries, each a piece or \<open>null\<close>; row 0 is
  rank 8. The evaluator reads \<open>board[row][col]\<close> for \<open>row\<close>, \<open>col\<close> in \<open>0..7\<close> only, so the
  array is modelled by its lookup function.
\<close>

type_synonym board = "nat \<Rightarrow> nat \<Rightarrow> piece option"

text \<open>
  JavaScript numbers as the search uses them: the integers produced by the evaluator and
  the two sentinels \<open>-Infinity\<close> and \<open>Infinity\<close>.
\<close>

datatype jsnum = NegInf | Fin int | PosInf

instantiation jsnum :: linorder
begin

fun less_eq_jsnum :: "jsnum \<Rightarrow> jsnum \<Rightarrow> bool" where
  "less_eq_jsnum NegInf y = True"
| "less_eq_jsnum (Fin x) NegInf = False"
| "less_eq_jsnum (Fin x) (Fin y) = (x \<le> y)"
| "less_eq_jsnum (Fin x) PosInf = True"
| "less_eq_jsnum PosInf PosInf = True"
| "less_eq_jsnum PosInf y = False"

definition less_jsnum :: "jsnum \<Rightarrow> jsnum \<Rightarrow> bool" where
  "less_jsnum a b = (a \<le> b \<and> \<not> b \<le> a)"

instance
proof
  fix x y z :: jsnum
  show "(x < y) = (x \<le> y \<and> \<not> y \<le> x)" by (simp add: less_jsnum_def)
  show "x \<le> x" by (cases x) simp_all
  show "x \<le> y \<Longrightarrow> y \<le> z \<Longrightarrow> x \<le> z" by (cases x; cases y; cases z) simp_all
  show "x \<le> y \<Longrightarrow> y \<le> x \<Longrightarrow> x = y" by (cases x; cases y) simp_all
  show "x \<le> y \<or> y \<le> x" by (cases x; cases y) auto
qed

end

subsection \<open>Material weights and piece-square tables\<close>

fun PIECE_VALUES :: "piece_symbol \<Rightarrow> int" where
  "PIECE_VALUES Pawn = 100"
| "PIECE_VALUES Knight = 320"
| "PIECE_VALUES Bishop = 330"
| "PIECE_VALUES Rook = 500"
| "PIECE_VALUES Queen = 900"
| "PIECE_VALUES King = 20000"

definition PAWN_PST :: "int list list" where
  "PAWN_PST =
    [[0,  0,  0,  0,  0,  0,  0,  0],
     [50, 50, 50, 50, 50, 50, 50, 50],
     [10, 10, 20, 30, 30, 20, 10, 10],
     [5,  5, 10, 25, 25, 10,  5,  5],
     [0,  0,  0, 20, 20,  0,  0,  0],
     [5, -5,-10,  0,  0,-10, -5,  5],
     [5, 10, 10,-20,-20, 10, 10,  5],
     [0,  0,  0,  0,  0,  0,  0,  0]]"

definition KNIGHT_PST :: "int list list" where
  "KNIGHT_PST =
    [[-50,-40,-30,-30,-30,-30,-40,-50],
     [-40,-20,  0,  0,  0,  0,-20,-40],
     [-30,  0, 10, 15, 15, 10,  0,-30],
     [-30,  5, 15, 20, 20, 15,  5,-30],
     [-30,  0, 15, 20, 20, 15,  0,-30],
     [-30,  5, 10, 15, 15, 10,  5,-30],
     [-40,-20,  0,  5,  5,  0,-20,-40],
     [-50,-40,-30,-30,-30,-30,-40,-50]]"

definition BISHOP_PST :: "int list list" where
  "BISHOP_PST =
    [[-20,-10,-10,-10,-10,-10,-10,-20],
     [-10,  0,  0,  0,  0,  0,  0,-10],
     [-10,  0,  5, 10, 10,  5,  0,-10],
     [-10,  5,  5, 10, 10,  5,  5,-10],
     [-10,  0, 10, 10, 10, 10,  0,-10],
     [-10, 10, 10, 10, 10, 10, 10,-10],
     [-10,  5,  0,  0,  0,  0,  5,-10],
     [-20,-10,-10,-10,-10,-10,-10,-20]]"

definition ROOK_PST :: "int list list" where
  "ROOK_PST =
    [[0,  0,  0,  0,  0,  0,  0,  0],
     [5, 10, 10, 10, 10, 10, 10,  5],
     [-5,  0,  0,  0,  0,  0,  0, -5],
     [-5,  0,  0,  0,  0,  0,  0, -5],
     [-5,  0,  0,  0,  0,  0,  0, -5],
     [-5,  0,  0,  0,  0,  0,  0, -5],
     [-5,  0,  0,  0,  0,  0,  0, -5],
     [0,  0,  0,  5,  5,  0,  0,  0]]"

definition QUEEN_PST :: "int list list" where
  "QUEEN_PST =
    [[-20,-10,-10, -5, -5,-10,-10,-20],
     [-10,  0,  0,  0,  0,  0,  0,-10],
     [-10,  0,  5,  5,  5,  5,  0,-10],
     [-5,   0,  5,  5,  5,  5,  0, -5],
     [0,    0,  5,  5,  5,  5,  0, -5],
     [-10,  5,  5,  5,  5,  5,  0,-10],
     [-10,  0,  5,  0,  0,  0,  0,-10],
     [-20,-10,-10, -5, -5,-10,-10,-20]]"

definition KING_PST :: "int list list" where
  "KING_PST =
    [[-30,-40,-40,-50,-50,-40,-40,-30],
     [-30,-40,-40,-50,-50,-40,-40,-30],
     [-30,-40,-40,-50,-50,-40,-40,-30],
     [-30,-40,-40,-50,-50,-40,-40,-30],
     [-20,-30,-30,-40,-40,-30,-30,-20],
     [-10,-20,-20,-20,-20,-20,-20,-10],
     [20, 20,  0,  0,  0,  0, 20, 20],
     [20, 30, 10,  0,  0, 10, 30, 20]]"

fun PSTS :: "piece_symbol \<Rightarrow> int list list" where
  "PSTS Pawn = PAWN_PST"
| "PSTS Knight = KNIGHT_PST"
| "PSTS Bishop = BISHOP_PST"
| "PSTS Rook = ROOK_PST"
| "PSTS Queen = QUEEN_PST"
| "PSTS King = KING_PST"

subsection \<open>The evaluator\<close>

text \<open>
  \<open>pieceScore\<close> is the body of the inner loop of \<open>evaluateBoard\<close> for an occupied square:
  material value plus the table entry, read at \<open>row\<close> for White and at \<open>7 - row\<close> for Black.
  Every piece type has a table, so the test \<open>if (pst)\<close> always succeeds.
\<close>

definition pieceScore :: "piece \<Rightarrow> nat \<Rightarrow> nat \<Rightarrow> int" where
  "pieceScore piece row col =
     (let materialValue = PIECE_VALUES (type piece);
          pst = PSTS (type piece);
          positionValue = (if color piece = White then pst ! row ! col
                           else pst ! (7 - row) ! col)
      in materialValue + positionValue)"

definition visit_square :: "board \<Rightarrow> nat \<Rightarrow> nat \<Rightarrow> int \<Rightarrow> int" where
  "visit_square board row col totalValue =
     (case board row col of
        None \<Rightarrow> totalValue
      | Some piece \<Rightarrow>
          if color piece = White then totalValue + pieceScore piece row col
          else totalValue - pieceScore piece row col)"

definition evaluateBoard :: "board \<Rightarrow> int" where
  "evaluateBoard board =
     fold (\<lambda>row totalValue.
             fold (\<lambda>col totalValue'. visit_square board row col totalValue') [0..<8] totalValue)
          [0..<8] 0"

section \<open>The rules engine\<close>

text \<open>
  A \<open>Move\<close> of chess.js, with the fields the specification names. The search reads
  \<open>captured\<close> only (the type of the captured piece, absent for a quiet move).
\<close>

record Move =
  from_sq :: string
  to_sq :: string
  promotion :: "piece_symbol option"
  captured :: "piece_symbol option"

text \<open>
  chess.js itself is outside the repository, so the methods of the \<open>Chess\<close> class that
  \<open>ai.ts\<close> calls are parameters of the model, over any type \<open>'p\<close> of game states:
  \<open>game.board()\<close>, \<open>game.moves({verbose: true})\<close>, \<open>game.move(m)\<close> (\<open>make_move\<close>, the state
  after the move), \<open>game.isGameOver()\<close>, \<open>game.turn()\<close>, \<open>game.fen()\<close> and the constructor
  \<open>new Chess(fen)\<close>.
  The methods are total functions: a legal move is applied without an exception.
\<close>

record 'p rules =
  board :: "'p \<Rightarrow> board"
  moves :: "'p \<Rightarrow> Move list"
  make_move :: "'p \<Rightarrow> Move \<Rightarrow> 'p"
  isGameOver :: "'p \<Rightarrow> bool"
  turn :: "'p \<Rightarrow> color"
  fen :: "'p \<Rightarrow> string"
  new_Chess :: "string \<Rightarrow> 'p"

text \<open>
  The two statements \<open>const gameCopy = new Chess(game.fen()); gameCopy.move(move)\<close> that open
  every loop body of the search.
\<close>

definition gameCopy :: "'p rules \<Rightarrow> 'p \<Rightarrow> Move \<Rightarrow> 'p" where
  "gameCopy eng game m = make_move eng (new_Chess eng (fen eng game)) m"

section \<open>\<open>Array.prototype.sort\<close> and \<open>slice\<close>\<close>

text \<open>
  \<open>xs.sort(cmp)\<close> is a stable sort that asks the comparator only whether \<open>cmp(a, b) < 0\<close>.
  It is modelled by stable insertion: an element of the array moves in front of an
  earlier one only when it compares strictly below it. For a consistent comparator this
  is the order ECMAScript prescribes. The comparator at the root of \<open>findBestMove\<close> answers 1
  for two moves of the same kind, where a consistent one answers 0; a sort that only tests
  \<open>cmp(a, b) < 0\<close> cannot tell the two apart.
\<close>

fun sort_insert :: "('a \<Rightarrow> 'a \<Rightarrow> int) \<Rightarrow> 'a \<Rightarrow> 'a list \<Rightarrow> 'a list" where
  "sort_insert cmp x [] = [x]"
| "sort_insert cmp x (y # ys) =
     (if cmp y x < 0 then y # sort_insert cmp x ys else x # y # ys)"

definition js_sort :: "('a \<Rightarrow> 'a \<Rightarrow> int) \<Rightarrow> 'a list \<Rightarrow> 'a list" where
  "js_sort cmp xs = foldr (sort_insert cmp) xs []"

text \<open>\<open>xs.slice(0, count)\<close>: a negative count counts from the end of the array.\<close>

definition slice0 :: "'a list \<Rightarrow> int \<Rightarrow> 'a list" where
  "slice0 xs cnt =
     (if cnt < 0 then take (nat (int (length xs) + cnt)) xs else take (nat cnt) xs)"

text \<open>
  The sign of the JavaScript difference \<open>x - y\<close>. The difference of two equal infinities
  is \<open>NaN\<close>, which \<open>sort\<close> reads as 0.
\<close>

fun js_minus_sgn :: "jsnum \<Rightarrow> jsnum \<Rightarrow> int" where
  "js_minus_sgn (Fin x) (Fin y) = sgn (x - y)"
| "js_minus_sgn PosInf PosInf = 0"
| "js_minus_sgn NegInf NegInf = 0"
| "js_minus_sgn PosInf y = 1"
| "js_minus_sgn NegInf y = - 1"
| "js_minus_sgn (Fin x) PosInf = - 1"
| "js_minus_sgn (Fin x) NegInf = 1"

section \<open>The search\<close>

text \<open>The comparator of the \<open>moves.sort\<close> call in \<open>minimax\<close>: captures first.\<close>

definition captures_first :: "Move \<Rightarrow> Move \<Rightarrow> int" where
  "captures_first a b =
     (if captured a \<noteq> None \<and> captured b = None then - 1
      else if captured a = None \<and> captured b \<noteq> None then 1
      else 0)"

text \<open>
  The two sibling loops of \<open>minimax\<close>. \<open>child m alpha beta\<close> is the recursive call on the
  copy of the game after move \<open>m\<close>; it is \<open>None\<close> when that call does not return.
\<close>

fun max_loop :: "(Move \<Rightarrow> jsnum \<Rightarrow> jsnum \<Rightarrow> jsnum option) \<Rightarrow> Move list \<Rightarrow>
    jsnum \<Rightarrow> jsnum \<Rightarrow> jsnum \<Rightarrow> jsnum option" where
  "max_loop child [] maxEval alpha beta = Some maxEval"
| "max_loop child (m # ms) maxEval alpha beta =
     (case child m alpha beta of
        None \<Rightarrow> None
      | Some evaluation \<Rightarrow>
          let maxEval' = max maxEval evaluation;
              alpha' = max alpha evaluation
          in if beta \<le> alpha' then Some maxEval'
             else max_loop child ms maxEval' alpha' beta)"

fun min_loop :: "(Move \<Rightarrow> jsnum \<Rightarrow> jsnum \<Rightarrow> jsnum option) \<Rightarrow> Move list \<Rightarrow>
    jsnum \<Rightarrow> jsnum \<Rightarrow> jsnum \<Rightarrow> jsnum option" where
  "min_loop child [] minEval alpha beta = Some minEval"
| "min_loop child (m # ms) minEval alpha beta =
     (case child m alpha beta of
        None \<Rightarrow> None
      | Some evaluation \<Rightarrow>
          let minEval' = min minEval evaluation;
              beta' = min beta evaluation
          in if beta' \<le> alpha then Some minEval'
             else min_loop child ms minEval' alpha beta')"

text \<open>
  \<open>minimax\<close>. The depth is a JavaScript number that the function only compares with 0 and
  decrements, so a negative depth never meets the test \<open>depth === 0\<close> and the recursion
  stops at finished games only. The first argument bounds the nesting of calls: a call that
  needs a deeper nesting does not return, which is the value \<open>None\<close>.
\<close>

fun minimax :: "nat \<Rightarrow> 'p rules \<Rightarrow> 'p \<Rightarrow> int \<Rightarrow> jsnum \<Rightarrow> jsnum \<Rightarrow> bool \<Rightarrow> jsnum option" where
  "minimax 0 eng game depth alpha beta isMaximizingPlayer = None"
| "minimax (Suc fuel) eng game depth alpha beta isMaximizingPlayer =
     (if depth = 0 \<or> isGameOver eng game then Some (Fin (evaluateBoard (board eng game)))
      else
        let ms = js_sort captures_first (moves eng game) in
        if isMaximizingPlayer then
          max_loop (\<lambda>m a b. minimax fuel eng (gameCopy eng game m) (depth - 1) a b False)
            ms NegInf alpha beta
        else
          min_loop (\<lambda>m a b. minimax fuel eng (gameCopy eng game m) (depth - 1) a b True)
            ms PosInf alpha beta)"

subsection \<open>\<open>findTopMoves\<close>\<close>

record evaluated =
  evaluation :: jsnum

record scored_move = evaluated +
  move :: Move

text \<open>The loop that fills \<open>moveEvaluations\<close>, one entry per move, in the order of \<open>moves\<close>.\<close>

fun collect_loop :: "(Move \<Rightarrow> jsnum option) \<Rightarrow> Move list \<Rightarrow> scored_move list \<Rightarrow>
    scored_move list option" where
  "collect_loop child [] moveEvaluations = Some moveEvaluations"
| "collect_loop child (m # ms) moveEvaluations =
     (case child m of
        None \<Rightarrow> None
      | Some ev \<Rightarrow>
          collect_loop child ms (moveEvaluations @ [\<lparr>evaluation = ev, move = m\<rparr>]))"

definition ranking_cmp :: "bool \<Rightarrow> scored_move \<Rightarrow> scored_move \<Rightarrow> int" where
  "ranking_cmp isMaximizingPlayer a b =
     (if isMaximizingPlayer then js_minus_sgn (evaluation b) (evaluation a)
      else js_minus_sgn (evaluation a) (evaluation b))"

definition findTopMoves :: "nat \<Rightarrow> 'p rules \<Rightarrow> 'p \<Rightarrow> int \<Rightarrow> int \<Rightarrow> scored_move list option" where
  "findTopMoves fuel eng game depth cnt =
     (let ms = moves eng game in
      if length ms = 0 then Some []
      else
        let isMaximizingPlayer = (turn eng game = White) in
        case collect_loop
               (\<lambda>m. minimax fuel eng (gameCopy eng game m) (depth - 1) NegInf PosInf
                       (\<not> isMaximizingPlayer))
               ms [] of
          None \<Rightarrow> None
        | Some moveEvaluations \<Rightarrow>
            Some (slice0 (js_sort (ranking_cmp isMaximizingPlayer) moveEvaluations) cnt))"

subsection \<open>\<open>findBestMove\<close>\<close>

record best = evaluated +
  bestMove :: "Move option"

text \<open>The comparator of the root sort: \<open>(a.captured ? 1 : 0) > (b.captured ? 1 : 0) ? -1 : 1\<close>.\<close>

definition root_cmp :: "Move \<Rightarrow> Move \<Rightarrow> int" where
  "root_cmp a b =
     (if (if captured a \<noteq> None then (1::int) else 0) > (if captured b \<noteq> None then 1 else 0)
      then - 1 else 1)"

fun best_loop :: "(Move \<Rightarrow> jsnum option) \<Rightarrow> bool \<Rightarrow> Move list \<Rightarrow> Move option \<Rightarrow> jsnum \<Rightarrow>
    best option" where
  "best_loop child isMaximizingPlayer [] best_m bestValue =
     Some \<lparr>evaluation = bestValue, bestMove = best_m\<rparr>"
| "best_loop child isMaximizingPlayer (m # ms) best_m bestValue =
     (case child m of
        None \<Rightarrow> None
      | Some boardValue \<Rightarrow>
          if isMaximizingPlayer then
            (if boardValue > bestValue then best_loop child isMaximizingPlayer ms (Some m) boardValue
             else best_loop child isMaximizingPlayer ms best_m bestValue)
          else
            (if boardValue < bestValue then best_loop child isMaximizingPlayer ms (Some m) boardValue
             else best_loop child isMaximizingPlayer ms best_m bestValue))"

text \<open>
  \<open>moves[0]\<close> of an empty array is \<open>undefined\<close>, the absent move; the sorted array of a
  non-empty move list is never empty.
\<close>

definition findBestMove :: "nat \<Rightarrow> 'p rules \<Rightarrow> 'p \<Rightarrow> int \<Rightarrow> best option" where
  "findBestMove fuel eng game depth =
     (let ms = moves eng game in
      if length ms = 0 then
        Some \<lparr>evaluation = Fin (evaluateBoard (board eng game)), bestMove = None\<rparr>
      else
        let sorted_ms = js_sort root_cmp ms;
            bestMove0 = (case sorted_ms of [] \<Rightarrow> None | m0 # rest \<Rightarrow> Some m0);
            isMaximizingPlayer = (turn eng game = White);
            bestValue0 = (if isMaximizingPlayer then NegInf else PosInf)
        in best_loop
             (\<lambda>m. minimax fuel eng (gameCopy eng game m) (depth - 1) NegInf PosInf
                     (\<not> isMaximizingPlayer))
             isMaximizingPlayer sorted_ms bestMove0 bestValue0)"


section \<open>Operations on boards used to state the properties\<close>

text \<open>
  \<open>colorFlip\<close> turns every White piece into a Black one and back and leaves every piece on
  its square. \<open>mirror_rows\<close> reflects the board across the horizontal axis: row \<open>r\<close> becomes
  row \<open>7 - r\<close>.
\<close>

definition flip_color :: "color \<Rightarrow> color" where
  "flip_color c = (case c of White \<Rightarrow> Black | Black \<Rightarrow> White)"

definition colorFlip :: "board \<Rightarrow> board" where
  "colorFlip b = (\<lambda>row col. map_option (\<lambda>p. Piece (type p) (flip_color (color p))) (b row col))"

definition mirror_rows :: "board \<Rightarrow> board" where
  "mirror_rows b = (\<lambda>row col. b (7 - row) col)"

text \<open>A board with a single white pawn on a7 (row 1, column 0).\<close>

definition lone_pawn :: board where
  "lone_pawn = (\<lambda>row col. if row = 1 \<and> col = 0 then Some (Piece Pawn White) else None)"

section \<open>A small rules engine\<close>

text \<open>
  A game whose states are the strings of moves played so far. A state of length \<open>n\<close> shows
  one pawn on each of the rows \<open>0..n-1\<close>, White on the even rows and Black on the odd ones,
  in the column named by the letter played. A game is over when no move is left.
\<close>

definition toy_move :: "string \<Rightarrow> piece_symbol option \<Rightarrow> Move" where
  "toy_move t c = \<lparr>from_sq = [], to_sq = t, promotion = None, captured = c\<rparr>"

definition toy_board :: "string \<Rightarrow> board" where
  "toy_board s = (\<lambda>row col.
     if row < length s \<and> col < 8 \<and> s ! row = ''abcdefgh'' ! col
     then Some (Piece Pawn (if even row then White else Black)) else None)"

fun toy_moves :: "string \<Rightarrow> Move list" where
  "toy_moves [] = [toy_move ''c'' None, toy_move ''a'' (Some Pawn), toy_move ''e'' None]"
| "toy_moves [x] =
     (if x = CHR ''c'' then [toy_move ''d'' None, toy_move ''b'' (Some Pawn)]
      else if x = CHR ''a'' then [toy_move ''a'' None, toy_move ''d'' None, toy_move ''h'' (Some Knight)]
      else [])"
| "toy_moves (x # y # s) = []"

definition toy :: "string rules" where
  "toy = \<lparr>board = toy_board,
          moves = toy_moves,
          make_move = (\<lambda>s m. s @ to_sq m),
          isGameOver = (\<lambda>s. toy_moves s = []),
          turn = (\<lambda>s. if even (length s) then White else Black),
          fen = (\<lambda>s. s),
          new_Chess = (\<lambda>s. s)\<rparr>"

section \<open>Auxiliary notions for the proofs\<close>

text \<open>
  The contribution of one square and of one row to the evaluation, which is the sum of the
  contributions of the 64 squares.
\<close>

definition square_value :: "board \<Rightarrow> nat \<Rightarrow> nat \<Rightarrow> int" where
  "square_value b row col = visit_square b row col 0"

definition row_value :: "board \<Rightarrow> nat \<Rightarrow> int" where
  "row_value b row = (\<Sum>col\<leftarrow>[0..<8]. square_value b row col)"

text \<open>The order the two capture-first sorts produce: captures, then quiet moves.\<close>

definition capture_first_order :: "Move list \<Rightarrow> Move list" where
  "capture_first_order ms =
     filter (\<lambda>m. captured m \<noteq> None) ms @ filter (\<lambda>m. captured m = None) ms"

text \<open>
  The call that both entry points make for a root move: \<open>minimax\<close> on the copy of the game
  after the move, at \<open>depth - 1\<close>, with the full window, for the opponent.
\<close>

definition root_child :: "nat \<Rightarrow> 'p rules \<Rightarrow> 'p \<Rightarrow> int \<Rightarrow> Move \<Rightarrow> jsnum option" where
  "root_child fuel eng game depth m =
     minimax fuel eng (gameCopy eng game m) (depth - 1) NegInf PosInf (\<not> (turn eng game = White))"

text \<open>
  The order of the ranking: \<open>a\<close> may stand before \<open>b\<close> when its evaluation is at least
  (White to move) or at most (Black to move) that of \<open>b\<close>.
\<close>

definition ranked :: "bool \<Rightarrow> scored_move \<Rightarrow> scored_move \<Rightarrow> bool" where
  "ranked isMax a b = (if isMax then evaluation b \<le> evaluation a else evaluation a \<le> evaluation b)"

section \<open>The search without pruning\<close>

text \<open>
  The reference of the pruning property: \<open>minimax\<close> with the \<open>sort\<close>, the window and the two
  \<open>break\<close>s removed, and the root of \<open>findBestMove\<close> over it. Every sibling loop visits all
  the legal moves in the order of the engine, keeping the running maximum or minimum. The
  depth is a natural number here.
\<close>

fun minimax_full :: "'p rules \<Rightarrow> nat \<Rightarrow> 'p \<Rightarrow> bool \<Rightarrow> jsnum" where
  "minimax_full eng 0 game isMaximizingPlayer = Fin (evaluateBoard (board eng game))"
| "minimax_full eng (Suc d) game isMaximizingPlayer =
     (if isGameOver eng game then Fin (evaluateBoard (board eng game))
      else if isMaximizingPlayer then
        fold (\<lambda>m maxEval. max maxEval (minimax_full eng d (gameCopy eng game m) False))
          (moves eng game) NegInf
      else
        fold (\<lambda>m minEval. min minEval (minimax_full eng d (gameCopy eng game m) True))
          (moves eng game) PosInf)"

definition findBestMove_full :: "'p rules \<Rightarrow> 'p \<Rightarrow> nat \<Rightarrow> jsnum" where
  "findBestMove_full eng game depth =
     (if moves eng game = [] then Fin (evaluateBoard (board eng game))
      else if turn eng game = White then
        fold (\<lambda>m bestValue. max bestValue (minimax_full eng (depth - 1) (gameCopy eng game m) False))
          (moves eng game) NegInf
      else
        fold (\<lambda>m bestValue. min bestValue (minimax_full eng (depth - 1) (gameCopy eng game m) True))
          (moves eng game) PosInf)"

text \<open>
  What a search with the window \<open>(a, b)\<close> promises about its result \<open>v\<close>, \<open>e\<close> being the exact
  value: a result inside the window is exact, a result at or below \<open>a\<close> is an upper bound
  and a result at or above \<open>b\<close> a lower bound.
\<close>

definition fail_soft :: "jsnum \<Rightarrow> jsnum \<Rightarrow> jsnum \<Rightarrow> jsnum \<Rightarrow> bool" where
  "fail_soft a b e v = ((v \<le> a \<longrightarrow> e \<le> v) \<and> (b \<le> v \<longrightarrow> v \<le> e) \<and> (a < v \<and> v < b \<longrightarrow> v = e))"

section \<open>The search on a store of game objects\<close>

text \<open>
  A \<open>Chess\<close> object is mutable: \<open>gameCopy.move(move)\<close> changes the object \<open>gameCopy\<close> in
  place. To state what the search does to the objects of its caller, the game objects live
  in a store, a list of game states addressed by position; a reference is an index of the
  store. \<open>new Chess(fen)\<close> appends a fresh object and returns its reference, \<open>g.move(m)\<close>
  overwrites the object of \<open>g\<close>, and the reading methods \<open>board()\<close>, \<open>moves()\<close>,
  \<open>isGameOver()\<close>, \<open>turn()\<close> and \<open>fen()\<close> leave the store as it is. The functions below are
  the functions of the search again, with the store passed through every call.
\<close>

type_synonym 'p store = "'p list"

definition new_Chess_s :: "'p rules \<Rightarrow> string \<Rightarrow> 'p store \<Rightarrow> nat \<times> 'p store" where
  "new_Chess_s eng f s = (length s, s @ [new_Chess eng f])"

definition move_s :: "'p rules \<Rightarrow> nat \<Rightarrow> Move \<Rightarrow> 'p store \<Rightarrow> 'p store" where
  "move_s eng g m s = s[g := make_move eng (s ! g) m]"

text \<open>\<open>const gameCopy = new Chess(game.fen()); gameCopy.move(move)\<close> on the store.\<close>

definition gameCopy_s :: "'p rules \<Rightarrow> nat \<Rightarrow> Move \<Rightarrow> 'p store \<Rightarrow> nat \<times> 'p store" where
  "gameCopy_s eng game m s =
     (case new_Chess_s eng (fen eng (s ! game)) s of
        (copy, s') \<Rightarrow> (copy, move_s eng copy m s'))"

definition evaluateBoard_s :: "'p rules \<Rightarrow> nat \<Rightarrow> 'p store \<Rightarrow> int \<times> 'p store" where
  "evaluateBoard_s eng game s = (evaluateBoard (board eng (s ! game)), s)"

fun max_loop_s :: "(Move \<Rightarrow> jsnum \<Rightarrow> jsnum \<Rightarrow> 'p store \<Rightarrow> (jsnum \<times> 'p store) option) \<Rightarrow>
    Move list \<Rightarrow> jsnum \<Rightarrow> jsnum \<Rightarrow> jsnum \<Rightarrow> 'p store \<Rightarrow> (jsnum \<times> 'p store) option" where
  "max_loop_s child [] maxEval alpha beta s = Some (maxEval, s)"
| "max_loop_s child (m # ms) maxEval alpha beta s =
     (case child m alpha beta s of
        None \<Rightarrow> None
      | Some (ev, s') \<Rightarrow>
          let maxEval' = max maxEval ev;
              alpha' = max alpha ev
          in if beta \<le> alpha' then Some (maxEval', s')
             else max_loop_s child ms maxEval' alpha' beta s')"

fun min_loop_s :: "(Move \<Rightarrow> jsnum \<Rightarrow> jsnum \<Rightarrow> 'p store \<Rightarrow> (jsnum \<times> 'p store) option) \<Rightarrow>
    Move list \<Rightarrow> jsnum \<Rightarrow> jsnum \<Rightarrow> jsnum \<Rightarrow> 'p store \<Rightarrow> (jsnum \<times> 'p store) option" where
  "min_loop_s child [] minEval alpha beta s = Some (minEval, s)"
| "min_loop_s child (m # ms) minEval alpha beta s =
     (case child m alpha beta s of
        None \<Rightarrow> None
      | Some (ev, s') \<Rightarrow>
          let minEval' = min minEval ev;
              beta' = min beta ev
          in if beta' \<le> alpha then Some (minEval', s')
             else min_loop_s child ms minEval' alpha beta' s')"

fun minimax_s :: "nat \<Rightarrow> 'p rules \<Rightarrow> nat \<Rightarrow> int \<Rightarrow> jsnum \<Rightarrow> jsnum \<Rightarrow> bool \<Rightarrow> 'p store \<Rightarrow>
    (jsnum \<times> 'p store) option" where
  "minimax_s 0 eng game depth alpha beta isMaximizingPlayer s = None"
| "minimax_s (Suc fuel) eng game depth alpha beta isMaximizingPlayer s =
     (if depth = 0 \<or> isGameOver eng (s ! game)
      then Some (Fin (fst (evaluateBoard_s eng game s)), s)
      else
        let ms = js_sort captures_first (moves eng (s ! game)) in
        if isMaximizingPlayer then
          max_loop_s
            (\<lambda>m a b s1. case gameCopy_s eng game m s1 of
                           (copy, s2) \<Rightarrow> minimax_s fuel eng copy (depth - 1) a b False s2)
            ms NegInf alpha beta s
        else
          min_loop_s
            (\<lambda>m a b s1. case gameCopy_s eng game m s1 of
                           (copy, s2) \<Rightarrow> minimax_s fuel eng copy (depth - 1) a b True s2)
            ms PosInf alpha beta s)"

text \<open>The call for a root move, on the store.\<close>

definition root_child_s :: "nat \<Rightarrow> 'p rules \<Rightarrow> nat \<Rightarrow> int \<Rightarrow> bool \<Rightarrow> Move \<Rightarrow> 'p store \<Rightarrow>
    (jsnum \<times> 'p store) option" where
  "root_child_s fuel eng game depth isMaximizingPlayer m s =
     (case gameCopy_s eng game m s of
        (copy, s') \<Rightarrow>
          minimax_s fuel eng copy (depth - 1) NegInf PosInf (\<not> isMaximizingPlayer) s')"

fun collect_loop_s :: "(Move \<Rightarrow> 'p store \<Rightarrow> (jsnum \<times> 'p store) option) \<Rightarrow> Move list \<Rightarrow>
    scored_move list \<Rightarrow> 'p store \<Rightarrow> (scored_move list \<times> 'p store) option" where
  "collect_loop_s child [] moveEvaluations s = Some (moveEvaluations, s)"
| "collect_loop_s child (m # ms) moveEvaluations s =
     (case child m s of
        None \<Rightarrow> None
      | Some (ev, s') \<Rightarrow>
          collect_loop_s child ms (moveEvaluations @ [\<lparr>evaluation = ev, move = m\<rparr>]) s')"

definition findTopMoves_s :: "nat \<Rightarrow> 'p rules \<Rightarrow> nat \<Rightarrow> int \<Rightarrow> int \<Rightarrow> 'p store \<Rightarrow>
    (scored_move list \<times> 'p store) option" where
  "findTopMoves_s fuel eng game depth cnt s =
     (let ms = moves eng (s ! game) in
      if length ms = 0 then Some ([], s)
      else
        let isMaximizingPlayer = (turn eng (s ! game) = White) in
        case collect_loop_s (root_child_s fuel eng game depth isMaximizingPlayer) ms [] s of
          None \<Rightarrow> None
        | Some (moveEvaluations, s') \<Rightarrow>
            Some (slice0 (js_sort (ranking_cmp isMaximizingPlayer) moveEvaluations) cnt, s'))"

fun best_loop_s :: "(Move \<Rightarrow> 'p store \<Rightarrow> (jsnum \<times> 'p store) option) \<Rightarrow> bool \<Rightarrow> Move list \<Rightarrow>
    Move option \<Rightarrow> jsnum \<Rightarrow> 'p store \<Rightarrow> (best \<times> 'p store) option" where
  "best_loop_s child isMaximizingPlayer [] best_m bestValue s =
     Some (\<lparr>evaluation = bestValue, bestMove = best_m\<rparr>, s)"
| "best_loop_s child isMaximizingPlayer (m # ms) best_m bestValue s =
     (case child m s of
        None \<Rightarrow> None
      | Some (boardValue, s') \<Rightarrow>
          if isMaximizingPlayer then
            (if boardValue > bestValue
             then best_loop_s child isMaximizingPlayer ms (Some m) boardValue s'
             else best_loop_s child isMaximizingPlayer ms best_m bestValue s')
          else
            (if boardValue < bestValue
             then best_loop_s child isMaximizingPlayer ms (Some m) boardValue s'
             else best_loop_s child isMaximizingPlayer ms best_m bestValue s'))"

definition findBestMove_s :: "nat \<Rightarrow> 'p rules \<Rightarrow> nat \<Rightarrow> int \<Rightarrow> 'p store \<Rightarrow>
    (best \<times> 'p store) option" where
  "findBestMove_s fuel eng game depth s =
     (let ms = moves eng (s ! game) in
      if length ms = 0 then
        Some (\<lparr>evaluation = Fin (fst (evaluateBoard_s eng game s)), bestMove = None\<rparr>, s)
      else
        let sorted_ms = js_sort root_cmp ms;
            bestMove0 = (case sorted_ms of [] \<Rightarrow> None | m0 # rest \<Rightarrow> Some m0);
            isMaximizingPlayer = (turn eng (s ! game) = White);
            bestValue0 = (if isMaximizingPlayer then NegInf else PosInf)
        in best_loop_s (root_child_s fuel eng game depth isMaximizingPlayer)
             isMaximizingPlayer sorted_ms bestMove0 bestValue0 s)"

text \<open>
  \<open>frames res pure s\<close>: a call on the store \<open>s\<close> with outcome \<open>res\<close> returns exactly when the
  store-free function does, with the same value, and its final store is \<open>s\<close> followed by
  the objects the call created: every object of \<open>s\<close> is unchanged.
\<close>

definition extends :: "'p store \<Rightarrow> 'p store \<Rightarrow> bool" where
  "extends s s' = (length s \<le> length s' \<and> take (length s) s' = s)"

definition frames :: "('a \<times> 'p store) option \<Rightarrow> 'a option \<Rightarrow> 'p store \<Rightarrow> bool" where
  "frames res pure s =
     (case res of None \<Rightarrow> pure = None | Some (v, s') \<Rightarrow> pure = Some v \<and> extends s s')"

section \<open>The opening of a game of chess\<close>

text \<open>
  What a rules engine for chess reports at the start of a game, as far as a search of
  depth 2 asks: the initial array of \<open>board()\<close>, the 20 first moves of either side (two
  pawn moves on each file and two moves of each knight, none of them a capture) and the
  board after such a move, on which the piece has gone from its origin to its
  destination. Squares are written as in chess.js, file then rank.
\<close>

definition start_rows :: "piece option list list" where
  "start_rows =
     [map (\<lambda>t. Some (Piece t Black)) [Rook, Knight, Bishop, Queen, King, Bishop, Knight, Rook],
      replicate 8 (Some (Piece Pawn Black)),
      replicate 8 None, replicate 8 None, replicate 8 None, replicate 8 None,
      replicate 8 (Some (Piece Pawn White)),
      map (\<lambda>t. Some (Piece t White)) [Rook, Knight, Bishop, Queen, King, Bishop, Knight, Rook]]"

definition start_board :: board where
  "start_board = (\<lambda>row col. if row < 8 \<and> col < 8 then start_rows ! row ! col else None)"

fun position_in :: "'a \<Rightarrow> 'a list \<Rightarrow> nat" where
  "position_in x [] = 0"
| "position_in x (y # ys) = (if x = y then 0 else Suc (position_in x ys))"

text \<open>Row and column of a square in the array of \<open>board()\<close>: a8 is row 0, column 0.\<close>

definition square_rc :: "string \<Rightarrow> nat \<times> nat" where
  "square_rc sq = (position_in (sq ! 1) ''87654321'', position_in (sq ! 0) ''abcdefgh'')"

definition relocate :: "board \<Rightarrow> string \<Rightarrow> string \<Rightarrow> board" where
  "relocate b f t =
     (\<lambda>row col. if (row, col) = square_rc t then b (fst (square_rc f)) (snd (square_rc f))
                else if (row, col) = square_rc f then None
                else b row col)"

definition quiet :: "string \<Rightarrow> string \<Rightarrow> Move" where
  "quiet f t = \<lparr>from_sq = f, to_sq = t, promotion = None, captured = None\<rparr>"

definition white_openings :: "Move list" where
  "white_openings =
     [quiet ''a2'' ''a3'', quiet ''a2'' ''a4'', quiet ''b2'' ''b3'', quiet ''b2'' ''b4'',
      quiet ''c2'' ''c3'', quiet ''c2'' ''c4'', quiet ''d2'' ''d3'', quiet ''d2'' ''d4'',
      quiet ''e2'' ''e3'', quiet ''e2'' ''e4'', quiet ''f2'' ''f3'', quiet ''f2'' ''f4'',
      quiet ''g2'' ''g3'', quiet ''g2'' ''g4'', quiet ''h2'' ''h3'', quiet ''h2'' ''h4'',
      quiet ''b1'' ''a3'', quiet ''b1'' ''c3'', quiet ''g1'' ''f3'', quiet ''g1'' ''h3'']"

definition black_openings :: "Move list" where
  "black_openings =
     [quiet ''a7'' ''a6'', quiet ''a7'' ''a5'', quiet ''b7'' ''b6'', quiet ''b7'' ''b5'',
      quiet ''c7'' ''c6'', quiet ''c7'' ''c5'', quiet ''d7'' ''d6'', quiet ''d7'' ''d5'',
      quiet ''e7'' ''e6'', quiet ''e7'' ''e5'', quiet ''f7'' ''f6'', quiet ''f7'' ''f5'',
      quiet ''g7'' ''g6'', quiet ''g7'' ''g5'', quiet ''h7'' ''h6'', quiet ''h7'' ''h5'',
      quiet ''b8'' ''a6'', quiet ''b8'' ''c6'', quiet ''g8'' ''f6'', quiet ''g8'' ''h6'']"

text \<open>Two arrays of \<open>board()\<close> with the same 64 entries.\<close>

definition same_board :: "board \<Rightarrow> board \<Rightarrow> bool" where
  "same_board b b' = (\<forall>row<8. \<forall>col<8. b row col = b' row col)"

text \<open>
  \<open>opens_like_chess eng game\<close>: the engine treats \<open>game\<close> as the starting position. The
  board is the initial one and White is to move with the 20 first moves, in any order;
  after each of them the game is not over and Black has the 20 first moves, in any order;
  and after a move of each side the board is the initial one with the two pieces
  relocated.
\<close>

definition opens_like_chess :: "'p rules \<Rightarrow> 'p \<Rightarrow> bool" where
  "opens_like_chess eng game =
     (same_board (board eng game) start_board
      \<and> turn eng game = White
      \<and> set (moves eng game) = set white_openings
      \<and> (\<forall>m\<in>set white_openings.
            \<not> isGameOver eng (gameCopy eng game m)
          \<and> set (moves eng (gameCopy eng game m)) = set black_openings
          \<and> (\<forall>m'\<in>set black_openings.
                same_board (board eng (gameCopy eng (gameCopy eng game m) m'))
                  (relocate (relocate start_board (from_sq m) (to_sq m)) (from_sq m') (to_sq m')))))"

text \<open>
  An engine that knows the first two plies of chess and nothing else: its states are the
  squares of the moves played, four characters a move, and the game is over after two
  moves.
\<close>

fun played :: "string \<Rightarrow> (string \<times> string) list" where
  "played (a # b # c # d # rest) = ([a, b], [c, d]) # played rest"
| "played s = []"

definition two_plies :: "string rules" where
  "two_plies = \<lparr>board = (\<lambda>s. fold (\<lambda>(f, t) b. relocate b f t) (played s) start_board),
                moves = (\<lambda>s. if s = [] then white_openings
                              else if length s = 4 then black_openings else []),
                make_move = (\<lambda>s m. s @ from_sq m @ to_sq m),
                isGameOver = (\<lambda>s. 8 \<le> length s),
                turn = (\<lambda>s. if even (length s div 4) then White else Black),
                fen = (\<lambda>s. s),
                new_Chess = (\<lambda>s. s)\<rparr>"

text \<open>
  The contribution of a piece (or of no piece) standing on a square, and what the
  evaluation gains when the piece on \<open>f\<close> goes to the empty square \<open>t\<close>.
\<close>

definition placed_value :: "piece option \<Rightarrow> nat \<Rightarrow> nat \<Rightarrow> int" where
  "placed_value p row col = square_value (\<lambda>r c. p) row col"

definition gain :: "board \<Rightarrow> string \<Rightarrow> string \<Rightarrow> int" where
  "gain b f t =
     (let p = b (fst (square_rc f)) (snd (square_rc f))
      in placed_value p (fst (square_rc t)) (snd (square_rc t))
         - placed_value p (fst (square_rc f)) (snd (square_rc f)))"

section \<open>Properties of the evaluator\<close>

lemma upt8: "[0..<8] = [0, 1, 2, 3, 4, 5, 6, 7::nat]"
  by code_simp

lemma visit_square_add: "visit_square b row col t = t + square_value b row col"
  by (simp add: visit_square_def square_value_def split: option.splits)

lemma fold_cols: "fold (visit_square b row) cs t = t + (\<Sum>col\<leftarrow>cs. square_value b row col)"
  by (induction cs arbitrary: t) (simp_all add: visit_square_add)

lemma fold_rows:
  "fold (\<lambda>row. fold (visit_square b row) [0..<8]) rs t = t + (\<Sum>row\<leftarrow>rs. row_value b row)"
  by (induction rs arbitrary: t) (simp_all add: fold_cols row_value_def)

lemma evaluateBoard_sum: "evaluateBoard b = (\<Sum>row\<leftarrow>[0..<8]. row_value b row)"
  unfolding evaluateBoard_def by (simp add: fold_rows)

subsection \<open>Bounds\<close>

lemma pst_bound: "r < 8 \<Longrightarrow> c < 8 \<Longrightarrow> \<bar>PSTS t ! r ! c\<bar> \<le> 50"
proof -
  assume "r < 8" "c < 8"
  then have rc: "r \<in> set [0..<8]" "c \<in> set [0..<8]" by simp_all
  have "\<forall>r\<in>set [0..<8]. \<forall>c\<in>set [0..<8]. \<bar>PSTS t ! r ! c\<bar> \<le> 50"
    unfolding upt8
    by (cases t) (simp_all add: PAWN_PST_def KNIGHT_PST_def BISHOP_PST_def ROOK_PST_def
        QUEEN_PST_def KING_PST_def)
  with rc show ?thesis by blast
qed

lemma pieceScore_bound: "row < 8 \<Longrightarrow> col < 8 \<Longrightarrow> \<bar>pieceScore p row col\<bar> \<le> 20050"
proof -
  assume rc: "row < 8" "col < 8"
  have m: "0 \<le> PIECE_VALUES (type p) \<and> PIECE_VALUES (type p) \<le> 20000"
    by (cases "type p") simp_all
  have "7 - row < 8" by simp
  with rc have "\<bar>PSTS (type p) ! row ! col\<bar> \<le> 50" "\<bar>PSTS (type p) ! (7 - row) ! col\<bar> \<le> 50"
    by (simp_all add: pst_bound)
  with m show ?thesis
    unfolding pieceScore_def Let_def by (cases "color p = White") (simp_all, linarith+)
qed

lemma square_value_bound: "row < 8 \<Longrightarrow> col < 8 \<Longrightarrow> \<bar>square_value b row col\<bar> \<le> 20050"
  using pieceScore_bound[of row col]
  by (auto simp: square_value_def visit_square_def split: option.splits)

lemma sum_list_abs_bound:
  "(\<And>x. x \<in> set xs \<Longrightarrow> \<bar>f x\<bar> \<le> (k::int)) \<Longrightarrow> \<bar>\<Sum>x\<leftarrow>xs. f x\<bar> \<le> int (length xs) * k"
proof (induction xs)
  case Nil
  then show ?case by simp
next
  case (Cons x xs)
  have "\<bar>f x\<bar> \<le> k" using Cons.prems by simp
  moreover have "\<bar>\<Sum>x\<leftarrow>xs. f x\<bar> \<le> int (length xs) * k" using Cons by simp
  ultimately show ?case by (simp add: algebra_simps)
qed

lemma row_value_bound: "row < 8 \<Longrightarrow> \<bar>row_value b row\<bar> \<le> 160400"
  unfolding row_value_def
  using sum_list_abs_bound[of "[0..<8]" "square_value b row" 20050]
  by (simp add: square_value_bound)

lemma rows_bound:
  "set rs \<subseteq> {0..<8} \<Longrightarrow> \<bar>\<Sum>row\<leftarrow>rs. row_value b row\<bar> \<le> int (length rs) * 160400"
  using sum_list_abs_bound[of rs "row_value b" 160400]
  by (simp add: row_value_bound subset_iff)

lemma evaluateBoard_bound: "\<bar>evaluateBoard b\<bar> \<le> 1283200"
  unfolding evaluateBoard_sum using rows_bound[of "[0..<8]" b] by simp

lemma running_total_bound:
  assumes "row < 8"
  shows "\<bar>fold (visit_square b row) (take k [0..<8])
            (fold (\<lambda>r. fold (visit_square b r) [0..<8]) [0..<row] 0)\<bar> \<le> 1283200"
proof -
  have a: "\<bar>\<Sum>r\<leftarrow>[0..<row]. row_value b r\<bar> \<le> int row * 160400"
    using rows_bound[of "[0..<row]" b] assms by (simp add: subset_iff)
  have "set (take k [0..<8]) \<subseteq> {0..<8}" using set_take_subset[of k "[0..<8]"] by simp
  then have "\<And>c. c \<in> set (take k [0..<8]) \<Longrightarrow> \<bar>square_value b row c\<bar> \<le> 20050"
    using assms square_value_bound by (simp add: subset_iff)
  then have "\<bar>\<Sum>c\<leftarrow>take k [0..<8]. square_value b row c\<bar>
      \<le> int (length (take k [0..<8])) * 20050"
    by (rule sum_list_abs_bound)
  moreover have "length (take k [0..<8]) \<le> 8" by simp
  ultimately have c: "\<bar>\<Sum>c\<leftarrow>take k [0..<8]. square_value b row c\<bar> \<le> 160400"
    by linarith
  from assms have "int row \<le> 7" by simp
  with a have "\<bar>\<Sum>r\<leftarrow>[0..<row]. row_value b r\<bar> \<le> 1122800" by linarith
  with c show ?thesis by (simp add: fold_rows fold_cols)
qed

text \<open>
  C9: the evaluation of any board is an integer of absolute value below \<open>10^9\<close> (at most
  64 squares of at most 20000 + 50 each), so it lies strictly between the sentinels
  \<open>-Infinity\<close> and \<open>Infinity\<close> of the search; the score of a piece on a square of the board and
  the running total after any number of visited squares stay within the signed 32-bit
  range.
\<close>

theorem evaluateBoard_range:
  "\<bar>evaluateBoard b\<bar> < 10 ^ 9
   \<and> NegInf < Fin (evaluateBoard b) \<and> Fin (evaluateBoard b) < PosInf
   \<and> (row < 8 \<and> col < 8 \<longrightarrow> \<bar>pieceScore p row col\<bar> < 2 ^ 31)
   \<and> (row < 8 \<longrightarrow>
        \<bar>fold (visit_square b row) (take k [0..<8])
           (fold (\<lambda>r. fold (visit_square b r) [0..<8]) [0..<row] 0)\<bar> < 2 ^ 31)"
proof -
  have "\<bar>evaluateBoard b\<bar> < 10 ^ 9" using evaluateBoard_bound[of b] by simp
  moreover have "NegInf < Fin (evaluateBoard b)" "Fin (evaluateBoard b) < PosInf"
    by (simp_all add: less_jsnum_def)
  moreover have "row < 8 \<and> col < 8 \<longrightarrow> \<bar>pieceScore p row col\<bar> < 2 ^ 31"
    using pieceScore_bound[of row col p] by auto
  moreover have "row < 8 \<longrightarrow>
        \<bar>fold (visit_square b row) (take k [0..<8])
           (fold (\<lambda>r. fold (visit_square b r) [0..<8]) [0..<row] 0)\<bar> < 2 ^ 31"
    using running_total_bound[of row b k] by auto
  ultimately show ?thesis by blast
qed

theorem evaluateBoard_range_witness:
  "\<bar>evaluateBoard lone_pawn\<bar> < 10 ^ 9
   \<and> NegInf < Fin (evaluateBoard lone_pawn) \<and> Fin (evaluateBoard lone_pawn) < PosInf
   \<and> (1::nat) < 8 \<and> (0::nat) < 8 \<and> \<bar>pieceScore (Piece Pawn White) 1 0\<bar> < 2 ^ 31
   \<and> \<bar>fold (visit_square lone_pawn 1) (take 1 [0..<8])
         (fold (\<lambda>r. fold (visit_square lone_pawn r) [0..<8]) [0..<1] 0)\<bar> < 2 ^ 31"
  using evaluateBoard_range[of lone_pawn 1 0 "Piece Pawn White" 1] by simp

subsection \<open>Colour symmetry\<close>

lemma square_value_flip:
  "row < 8 \<Longrightarrow> square_value (colorFlip (mirror_rows b)) row col = - square_value b (7 - row) col"
  by (cases "b (7 - row) col")
     (auto simp: square_value_def visit_square_def colorFlip_def mirror_rows_def pieceScore_def
        flip_color_def Let_def split: color.splits)

lemma row_value_flip:
  "row < 8 \<Longrightarrow> row_value (colorFlip (mirror_rows b)) row = - row_value b (7 - row)"
  unfolding row_value_def upt8 by (simp add: square_value_flip)

text \<open>
  C6, as stated: flipping the colour of every piece, each piece staying on its square,
  negates the evaluation. It fails for a lone white pawn on a7: the pawn is worth
  \<open>100 + 50\<close> to White, and as a black pawn on a7 it is worth \<open>100 + 5\<close> to Black, because
  Black reads the table at row \<open>7 - row\<close>.
\<close>

theorem colorFlip_counterexample:
  "evaluateBoard (colorFlip lone_pawn) \<noteq> - evaluateBoard lone_pawn"
  by (simp add: evaluateBoard_def upt8 visit_square_def colorFlip_def lone_pawn_def
      pieceScore_def flip_color_def PAWN_PST_def)

text \<open>
  C6, amended: flipping the colour of every piece and reflecting the board across the
  horizontal axis (row \<open>r\<close> to row \<open>7 - r\<close>) negates the evaluation.
\<close>

theorem colorFlip_mirror_negates:
  "evaluateBoard (colorFlip (mirror_rows b)) = - evaluateBoard b"
  unfolding evaluateBoard_sum upt8 by (simp add: row_value_flip)

section \<open>Properties of the search\<close>

lemma toy_simps:
  "board toy = toy_board" "moves toy = toy_moves" "make_move toy s m = s @ to_sq m"
  "isGameOver toy s = (toy_moves s = [])"
  "turn toy s = (if even (length s) then White else Black)"
  "fen toy s = s" "new_Chess toy s = s"
  by (simp_all add: toy_def)

text \<open>
  C4: at depth 0, for any window and either player, \<open>minimax\<close> returns the static evaluation;
  and at any depth, when the depth is 0 or the game is over, it returns the static
  evaluation whatever the engine's move generator is, so no move is enumerated.
\<close>

theorem minimax_terminal:
  "minimax (Suc fuel) eng game 0 alpha beta isMax = Some (Fin (evaluateBoard (board eng game)))
   \<and> (depth = 0 \<or> isGameOver eng game \<longrightarrow>
        minimax (Suc fuel) (eng\<lparr>moves := mv\<rparr>) game depth alpha beta isMax
          = Some (Fin (evaluateBoard (board eng game))))"
  by simp

theorem minimax_terminal_witness:
  "isGameOver toy ''cd''
   \<and> minimax (Suc 0) toy ''cd'' 0 (Fin 3) (Fin 1) True = Some (Fin (evaluateBoard (toy_board ''cd'')))
   \<and> minimax (Suc 0) (toy\<lparr>moves := (\<lambda>s. [toy_move ''a'' None])\<rparr>) ''cd'' 5 NegInf PosInf False
        = Some (Fin (evaluateBoard (toy_board ''cd'')))"
  using minimax_terminal[where fuel = 0 and eng = toy and game = "''cd''" and alpha = "Fin 3"
      and beta = "Fin 1" and isMax = True and depth = 0 and mv = "\<lambda>s. [toy_move ''a'' None]"]
    minimax_terminal[where fuel = 0 and eng = toy and game = "''cd''" and alpha = NegInf
      and beta = PosInf and isMax = False and depth = 5 and mv = "\<lambda>s. [toy_move ''a'' None]"]
  by (simp add: toy_simps)

text \<open>
  C5: on a position without legal moves, for every depth and count, \<open>findBestMove\<close> returns
  the absent move with the static evaluation and \<open>findTopMoves\<close> returns the empty list;
  both return (the result is not \<open>None\<close>), whatever nesting of calls is available.
\<close>

theorem no_moves_contract:
  "moves eng game = [] \<Longrightarrow>
     findBestMove fuel eng game depth
       = Some \<lparr>evaluation = Fin (evaluateBoard (board eng game)), bestMove = None\<rparr>
     \<and> findTopMoves fuel eng game depth cnt = Some []"
  by (simp add: findBestMove_def findTopMoves_def)

theorem no_moves_contract_witness:
  "moves toy ''cd'' = []
   \<and> findBestMove 0 toy ''cd'' 3
       = Some \<lparr>evaluation = Fin (evaluateBoard (toy_board ''cd'')), bestMove = None\<rparr>
   \<and> findTopMoves 0 toy ''cd'' 3 2 = Some []"
  using no_moves_contract[of toy "''cd''" 0 3 2] by (simp add: toy_simps)

subsection \<open>The sort\<close>

lemma js_sort_Nil: "js_sort cmp [] = []" by (simp add: js_sort_def)
lemma js_sort_Cons: "js_sort cmp (x # xs) = sort_insert cmp x (js_sort cmp xs)"
  by (simp add: js_sort_def)

lemma mset_sort_insert: "mset (sort_insert cmp x ys) = add_mset x (mset ys)"
  by (induction ys) simp_all

lemma mset_js_sort: "mset (js_sort cmp xs) = mset xs"
  by (induction xs) (simp_all add: js_sort_Nil js_sort_Cons mset_sort_insert)

lemma set_js_sort: "set (js_sort cmp xs) = set xs"
  using mset_js_sort[of cmp xs] by (metis set_mset_mset)

lemma length_js_sort: "length (js_sort cmp xs) = length xs"
  using mset_js_sort[of cmp xs] by (metis size_mset)

lemma js_sort_eq_Nil: "js_sort cmp xs = [] \<longleftrightarrow> xs = []"
  using length_js_sort[of cmp xs] by auto

lemma filter_sort_insert:
  assumes "\<And>a b. Q a \<Longrightarrow> Q b \<Longrightarrow> \<not> cmp a b < 0"
  shows "filter Q (sort_insert cmp x ys) = filter Q (x # ys)"
  using assms by (induction ys) auto

lemma filter_js_sort:
  assumes "\<And>a b. Q a \<Longrightarrow> Q b \<Longrightarrow> \<not> cmp a b < 0"
  shows "filter Q (js_sort cmp xs) = filter Q xs"
proof (induction xs)
  case Nil
  show ?case by (simp add: js_sort_Nil)
next
  case (Cons x xs)
  have "filter Q (js_sort cmp (x # xs)) = filter Q (x # js_sort cmp xs)"
    unfolding js_sort_Cons using assms by (rule filter_sort_insert)
  then show ?case using Cons by simp
qed

text \<open>A comparator that is a strict weak order yields a sorted array.\<close>

lemma sorted_sort_insert:
  assumes tr: "\<And>a b c. cmp a b < 0 \<Longrightarrow> cmp b c < 0 \<Longrightarrow> cmp a c < 0"
    and nt: "\<And>a b c. \<not> cmp a b < 0 \<Longrightarrow> \<not> cmp b c < 0 \<Longrightarrow> \<not> cmp a c < 0"
    and asym: "\<And>a b. cmp a b < 0 \<Longrightarrow> \<not> cmp b a < 0"
    and "sorted_wrt (\<lambda>a b. \<not> cmp b a < 0) ys"
  shows "sorted_wrt (\<lambda>a b. \<not> cmp b a < 0) (sort_insert cmp x ys)"
  using assms(4)
proof (induction ys)
  case Nil
  show ?case by simp
next
  case (Cons y ys)
  show ?case
  proof (cases "cmp y x < 0")
    case True
    have "\<forall>z\<in>set (sort_insert cmp x ys). \<not> cmp z y < 0"
    proof
      fix z assume "z \<in> set (sort_insert cmp x ys)"
      then have "z \<in># mset (sort_insert cmp x ys)" by simp
      then have "z = x \<or> z \<in> set ys" by (simp add: mset_sort_insert)
      then show "\<not> cmp z y < 0" using True asym Cons.prems by auto
    qed
    then show ?thesis using True Cons by simp
  next
    case False
    have "\<forall>z\<in>set ys. \<not> cmp z x < 0"
    proof
      fix z assume "z \<in> set ys"
      then have "\<not> cmp z y < 0" using Cons.prems by simp
      then show "\<not> cmp z x < 0" using False nt by blast
    qed
    then show ?thesis using False Cons.prems by simp
  qed
qed

lemma sorted_js_sort:
  assumes tr: "\<And>a b c. cmp a b < 0 \<Longrightarrow> cmp b c < 0 \<Longrightarrow> cmp a c < 0"
    and nt: "\<And>a b c. \<not> cmp a b < 0 \<Longrightarrow> \<not> cmp b c < 0 \<Longrightarrow> \<not> cmp a c < 0"
    and asym: "\<And>a b. cmp a b < 0 \<Longrightarrow> \<not> cmp b a < 0"
  shows "sorted_wrt (\<lambda>a b. \<not> cmp b a < 0) (js_sort cmp xs)"
proof (induction xs)
  case Nil
  show ?case by (simp add: js_sort_Nil)
next
  case (Cons x xs)
  show ?case unfolding js_sort_Cons
    using tr nt asym Cons by (rule sorted_sort_insert)
qed

text \<open>Both capture-first comparators partition the moves, keeping the order within each part.\<close>

lemma sort_insert_partition:
  assumes "\<And>y. cmp y x < 0 \<longleftrightarrow> (Q y \<and> \<not> Q x)"
  shows "sort_insert cmp x (filter Q ys @ filter (\<lambda>y. \<not> Q y) ys)
         = filter Q (x # ys) @ filter (\<lambda>y. \<not> Q y) (x # ys)"
proof -
  have a: "\<And>zs. \<not> Q x \<Longrightarrow> sort_insert cmp x (filter Q ys @ zs) = filter Q ys @ sort_insert cmp x zs"
    using assms by (induction ys) auto
  have b0: "\<And>ws. \<forall>y\<in>set ws. \<not> Q y \<Longrightarrow> sort_insert cmp x ws = x # ws"
    using assms by (case_tac ws) auto
  have b: "\<And>zs. \<not> Q x \<Longrightarrow> sort_insert cmp x (filter (\<lambda>y. \<not> Q y) zs) = x # filter (\<lambda>y. \<not> Q y) zs"
    by (rule b0) simp
  have c: "\<And>zs. Q x \<Longrightarrow> sort_insert cmp x zs = x # zs"
    using assms by (case_tac zs) auto
  show ?thesis
  proof (cases "Q x")
    case True then show ?thesis by (simp add: c)
  next
    case False then show ?thesis by (simp add: a b)
  qed
qed

lemma js_sort_partition:
  assumes "\<And>x y. cmp y x < 0 \<longleftrightarrow> (Q y \<and> \<not> Q x)"
  shows "js_sort cmp xs = filter Q xs @ filter (\<lambda>y. \<not> Q y) xs"
proof (induction xs)
  case Nil
  show ?case by (simp add: js_sort_Nil)
next
  case (Cons x xs)
  have "js_sort cmp (x # xs) = sort_insert cmp x (filter Q xs @ filter (\<lambda>y. \<not> Q y) xs)"
    by (simp add: js_sort_Cons Cons)
  also have "\<dots> = filter Q (x # xs) @ filter (\<lambda>y. \<not> Q y) (x # xs)"
    using assms by (rule sort_insert_partition)
  finally show ?case .
qed

lemma js_sort_captures_first: "js_sort captures_first ms = capture_first_order ms"
  unfolding capture_first_order_def
  using js_sort_partition[of captures_first "\<lambda>m. captured m \<noteq> None" ms]
  by (simp add: captures_first_def)

lemma js_sort_root_cmp: "js_sort root_cmp ms = capture_first_order ms"
  unfolding capture_first_order_def
  using js_sort_partition[of root_cmp "\<lambda>m. captured m \<noteq> None" ms]
  by (simp add: root_cmp_def)

lemma js_minus_sgn_neg: "js_minus_sgn x y < 0 \<longleftrightarrow> x < y"
  by (cases x; cases y) (simp_all add: less_jsnum_def sgn_if)

lemma ranking_cmp_neg:
  "ranking_cmp isMax a b < 0 \<longleftrightarrow> (if isMax then evaluation b < evaluation a else evaluation a < evaluation b)"
  by (simp add: ranking_cmp_def js_minus_sgn_neg)

subsection \<open>The order on JavaScript numbers\<close>

lemma jsnum_less_simps [simp]:
  "NegInf < Fin x" "Fin x < PosInf" "NegInf < PosInf" "(Fin x < Fin y) = (x < y)"
  by (auto simp add: less_jsnum_def)

lemma jsnum_not_less [simp]: "\<not> a < NegInf" "\<not> PosInf < a"
  by (cases a, simp_all add: less_jsnum_def)+

lemma jsnum_le_simps [simp]:
  "a \<le> PosInf" "(PosInf \<le> a) = (a = PosInf)" "(a \<le> NegInf) = (a = NegInf)"
  by (cases a, simp_all)+

lemma max_Fin: "a \<noteq> PosInf \<Longrightarrow> \<exists>y. max a (Fin x) = Fin y"
  by (cases a) (simp_all add: max_def)

lemma min_Fin: "a \<noteq> NegInf \<Longrightarrow> \<exists>y. min a (Fin x) = Fin y"
  by (cases a) (simp_all add: min_def)

subsection \<open>The small engine, run\<close>

text \<open>The search on the small engine, by computation.\<close>

lemma toy_leaf_values:
  "evaluateBoard (toy_board ''cd'') = 20" "evaluateBoard (toy_board ''cb'') = - 10"
  "evaluateBoard (toy_board ''aa'') = - 5" "evaluateBoard (toy_board ''ad'') = 20"
  "evaluateBoard (toy_board ''ah'') = - 5" "evaluateBoard (toy_board ''e'') = 100"
  "evaluateBoard (toy_board ''c'') = 100" "evaluateBoard (toy_board ''a'') = 100"
  by (simp_all add: evaluateBoard_def upt8 visit_square_def toy_board_def pieceScore_def PAWN_PST_def)

lemmas toy_run = toy_simps js_sort_def root_cmp_def captures_first_def ranking_cmp_def toy_move_def
  gameCopy_def toy_leaf_values Let_def slice0_def

lemma toy_best_2: "findBestMove 2 toy [] 2
   = Some \<lparr>evaluation = Fin 100, bestMove = Some (toy_move ''e'' None)\<rparr>"
  by (simp add: findBestMove_def numeral_2_eq_2 toy_run split del: if_split cong: if_weak_cong)

lemma toy_best_1: "findBestMove 1 toy [] 1
   = Some \<lparr>evaluation = Fin 100, bestMove = Some (toy_move ''a'' (Some Pawn))\<rparr>"
  by (simp add: findBestMove_def toy_run split del: if_split cong: if_weak_cong)

lemma toy_best_3: "findBestMove 3 toy [] 3
   = Some \<lparr>evaluation = Fin 100, bestMove = Some (toy_move ''e'' None)\<rparr>"
  by (simp add: findBestMove_def numeral_3_eq_3 toy_run split del: if_split cong: if_weak_cong)

lemma toy_top_2: "findTopMoves 2 toy [] 2 2
   = Some [\<lparr>evaluation = Fin 100, move = toy_move ''e'' None\<rparr>,
           \<lparr>evaluation = Fin (- 5), move = toy_move ''a'' (Some Pawn)\<rparr>]"
  by (simp add: findTopMoves_def numeral_2_eq_2 toy_run split del: if_split cong: if_weak_cong)

lemma toy_top_black: "findTopMoves 2 toy ''a'' 2 2
   = Some [\<lparr>evaluation = Fin (- 5), move = toy_move ''a'' None\<rparr>,
           \<lparr>evaluation = Fin (- 5), move = toy_move ''h'' (Some Knight)\<rparr>]"
  by (simp add: findTopMoves_def numeral_2_eq_2 toy_run split del: if_split cong: if_weak_cong)

lemma toy_full_3: "findBestMove_full toy [] 3 = Fin 100"
  by (simp add: findBestMove_full_def numeral_3_eq_3 numeral_2_eq_2 toy_run split del: if_split cong: if_weak_cong)

subsection \<open>Finite results\<close>

lemma max_loop_Fin:
  assumes "\<And>m a b. m \<in> set ms \<Longrightarrow> \<exists>x. child m a b = Some (Fin x)"
    and "maxEval \<noteq> PosInf" and "ms \<noteq> [] \<or> maxEval \<noteq> NegInf"
  shows "\<exists>x. max_loop child ms maxEval alpha beta = Some (Fin x)"
  using assms
proof (induction ms arbitrary: maxEval alpha)
  case Nil
  then show ?case by (cases maxEval) simp_all
next
  case (Cons m ms)
  obtain x where x: "child m alpha beta = Some (Fin x)" using Cons.prems(1)[of m] by auto
  obtain y where y: "max maxEval (Fin x) = Fin y" using max_Fin[OF Cons.prems(2)] by blast
  have "\<exists>z. max_loop child ms (Fin y) (max alpha (Fin x)) beta = Some (Fin z)"
    by (rule Cons.IH) (simp_all add: Cons.prems(1))
  then show ?case using x y by (simp add: Let_def)
qed

lemma min_loop_Fin:
  assumes "\<And>m a b. m \<in> set ms \<Longrightarrow> \<exists>x. child m a b = Some (Fin x)"
    and "minEval \<noteq> NegInf" and "ms \<noteq> [] \<or> minEval \<noteq> PosInf"
  shows "\<exists>x. min_loop child ms minEval alpha beta = Some (Fin x)"
  using assms
proof (induction ms arbitrary: minEval beta)
  case Nil
  then show ?case by (cases minEval) simp_all
next
  case (Cons m ms)
  obtain x where x: "child m alpha beta = Some (Fin x)" using Cons.prems(1)[of m] by auto
  obtain y where y: "min minEval (Fin x) = Fin y" using min_Fin[OF Cons.prems(2)] by blast
  have "\<exists>z. min_loop child ms (Fin y) alpha (min beta (Fin x)) = Some (Fin z)"
    by (rule Cons.IH) (simp_all add: Cons.prems(1))
  then show ?case using x y by (simp add: Let_def)
qed

lemma minimax_Fin:
  assumes contract: "\<forall>g. moves eng g = [] \<longrightarrow> isGameOver eng g"
  shows "0 \<le> depth \<Longrightarrow> nat depth < fuel \<Longrightarrow>
    \<exists>x. minimax fuel eng game depth alpha beta isMax = Some (Fin x)"
proof (induction fuel arbitrary: depth game alpha beta isMax)
  case 0
  then show ?case by simp
next
  case (Suc fuel)
  show ?case
  proof (cases "depth = 0 \<or> isGameOver eng game")
    case True
    then show ?thesis by auto
  next
    case False
    then have ne: "js_sort captures_first (moves eng game) \<noteq> []"
      using contract by (auto simp: js_sort_eq_Nil)
    have d: "0 \<le> depth - 1" "nat (depth - 1) < fuel" using False Suc.prems by auto
    have c: "\<And>m a b im. \<exists>x. minimax fuel eng (gameCopy eng game m) (depth - 1) a b im = Some (Fin x)"
      using Suc.IH[OF d] by blast
    show ?thesis
    proof (cases isMax)
      case True
      have "\<exists>x. max_loop (\<lambda>m a b. minimax fuel eng (gameCopy eng game m) (depth - 1) a b False)
              (js_sort captures_first (moves eng game)) NegInf alpha beta = Some (Fin x)"
        by (rule max_loop_Fin) (use c ne in simp_all)
      then show ?thesis using False True by (simp add: Let_def)
    next
      case F: False
      have "\<exists>x. min_loop (\<lambda>m a b. minimax fuel eng (gameCopy eng game m) (depth - 1) a b True)
              (js_sort captures_first (moves eng game)) PosInf alpha beta = Some (Fin x)"
        by (rule min_loop_Fin) (use c ne in simp_all)
      then show ?thesis using False F by (simp add: Let_def)
    qed
  qed
qed

subsection \<open>The root loop of \<open>findBestMove\<close>\<close>

lemma best_loop_max:
  assumes "\<And>m. m \<in> set ms \<Longrightarrow> child m = Some (cv m)"
  shows "\<exists>V M. best_loop child True ms bm bv = Some \<lparr>evaluation = V, bestMove = M\<rparr>
          \<and> ((V = bv \<and> M = bm \<and> (\<forall>x\<in>set ms. cv x \<le> bv))
             \<or> (bv < V \<and> (\<exists>pre m post. ms = pre @ m # post \<and> M = Some m \<and> cv m = V
                    \<and> (\<forall>x\<in>set pre. cv x < V) \<and> (\<forall>x\<in>set post. cv x \<le> V))))"
  using assms
proof (induction ms arbitrary: bm bv)
  case Nil
  show ?case by simp
next
  case (Cons a ms)
  have ca: "child a = Some (cv a)" using Cons.prems by simp
  have rest: "\<And>m. m \<in> set ms \<Longrightarrow> child m = Some (cv m)" using Cons.prems by simp
  show ?case
  proof (cases "bv < cv a")
    case True
    from Cons.IH[OF rest, of "Some a" "cv a"] obtain V M where
      r: "best_loop child True ms (Some a) (cv a) = Some \<lparr>evaluation = V, bestMove = M\<rparr>"
      and d: "(V = cv a \<and> M = Some a \<and> (\<forall>x\<in>set ms. cv x \<le> cv a))
             \<or> (cv a < V \<and> (\<exists>pre m post. ms = pre @ m # post \<and> M = Some m \<and> cv m = V
                    \<and> (\<forall>x\<in>set pre. cv x < V) \<and> (\<forall>x\<in>set post. cv x \<le> V)))"
      by blast
    have eq: "best_loop child True (a # ms) bm bv = Some \<lparr>evaluation = V, bestMove = M\<rparr>"
      using ca True r by simp
    from d have "bv < V \<and> (\<exists>pre m post. a # ms = pre @ m # post \<and> M = Some m \<and> cv m = V
                    \<and> (\<forall>x\<in>set pre. cv x < V) \<and> (\<forall>x\<in>set post. cv x \<le> V))"
    proof
      assume h: "V = cv a \<and> M = Some a \<and> (\<forall>x\<in>set ms. cv x \<le> cv a)"
      then have "a # ms = [] @ a # ms \<and> M = Some a \<and> cv a = V
                    \<and> (\<forall>x\<in>set []. cv x < V) \<and> (\<forall>x\<in>set ms. cv x \<le> V)" by simp
      then show ?thesis using True h by blast
    next
      assume h: "cv a < V \<and> (\<exists>pre m post. ms = pre @ m # post \<and> M = Some m \<and> cv m = V
                    \<and> (\<forall>x\<in>set pre. cv x < V) \<and> (\<forall>x\<in>set post. cv x \<le> V))"
      then obtain pre m post where p: "ms = pre @ m # post" "M = Some m" "cv m = V"
        "\<forall>x\<in>set pre. cv x < V" "\<forall>x\<in>set post. cv x \<le> V" by blast
      have "a # ms = (a # pre) @ m # post \<and> M = Some m \<and> cv m = V
                    \<and> (\<forall>x\<in>set (a # pre). cv x < V) \<and> (\<forall>x\<in>set post. cv x \<le> V)"
        using p h by simp
      moreover have "bv < V" using True conjunct1[OF h] by (rule less_trans)
      ultimately show ?thesis by blast
    qed
    with eq show ?thesis by blast
  next
    case False
    from Cons.IH[OF rest, of bm bv] obtain V M where
      r: "best_loop child True ms bm bv = Some \<lparr>evaluation = V, bestMove = M\<rparr>"
      and d: "(V = bv \<and> M = bm \<and> (\<forall>x\<in>set ms. cv x \<le> bv))
             \<or> (bv < V \<and> (\<exists>pre m post. ms = pre @ m # post \<and> M = Some m \<and> cv m = V
                    \<and> (\<forall>x\<in>set pre. cv x < V) \<and> (\<forall>x\<in>set post. cv x \<le> V)))"
      by blast
    have eq: "best_loop child True (a # ms) bm bv = Some \<lparr>evaluation = V, bestMove = M\<rparr>"
      using ca False r by simp
    from d have "(V = bv \<and> M = bm \<and> (\<forall>x\<in>set (a # ms). cv x \<le> bv))
             \<or> (bv < V \<and> (\<exists>pre m post. a # ms = pre @ m # post \<and> M = Some m \<and> cv m = V
                    \<and> (\<forall>x\<in>set pre. cv x < V) \<and> (\<forall>x\<in>set post. cv x \<le> V)))"
    proof
      assume "V = bv \<and> M = bm \<and> (\<forall>x\<in>set ms. cv x \<le> bv)"
      then show ?thesis using False by simp
    next
      assume h: "bv < V \<and> (\<exists>pre m post. ms = pre @ m # post \<and> M = Some m \<and> cv m = V
                    \<and> (\<forall>x\<in>set pre. cv x < V) \<and> (\<forall>x\<in>set post. cv x \<le> V))"
      then obtain pre m post where p: "ms = pre @ m # post" "M = Some m" "cv m = V"
        "\<forall>x\<in>set pre. cv x < V" "\<forall>x\<in>set post. cv x \<le> V" by blast
      have "cv a \<le> bv" using False by simp
      then have "cv a < V" using conjunct1[OF h] by (rule le_less_trans)
      then have "a # ms = (a # pre) @ m # post \<and> M = Some m \<and> cv m = V
                    \<and> (\<forall>x\<in>set (a # pre). cv x < V) \<and> (\<forall>x\<in>set post. cv x \<le> V)"
        using p by simp
      then show ?thesis using h by blast
    qed
    with eq show ?thesis by blast
  qed
qed

lemma best_loop_min:
  assumes "\<And>m. m \<in> set ms \<Longrightarrow> child m = Some (cv m)"
  shows "\<exists>V M. best_loop child False ms bm bv = Some \<lparr>evaluation = V, bestMove = M\<rparr>
          \<and> ((V = bv \<and> M = bm \<and> (\<forall>x\<in>set ms. bv \<le> cv x))
             \<or> (V < bv \<and> (\<exists>pre m post. ms = pre @ m # post \<and> M = Some m \<and> cv m = V
                    \<and> (\<forall>x\<in>set pre. V < cv x) \<and> (\<forall>x\<in>set post. V \<le> cv x))))"
  using assms
proof (induction ms arbitrary: bm bv)
  case Nil
  show ?case by simp
next
  case (Cons a ms)
  have ca: "child a = Some (cv a)" using Cons.prems by simp
  have rest: "\<And>m. m \<in> set ms \<Longrightarrow> child m = Some (cv m)" using Cons.prems by simp
  show ?case
  proof (cases "cv a < bv")
    case True
    from Cons.IH[OF rest, of "Some a" "cv a"] obtain V M where
      r: "best_loop child False ms (Some a) (cv a) = Some \<lparr>evaluation = V, bestMove = M\<rparr>"
      and d: "(V = cv a \<and> M = Some a \<and> (\<forall>x\<in>set ms. cv a \<le> cv x))
             \<or> (V < cv a \<and> (\<exists>pre m post. ms = pre @ m # post \<and> M = Some m \<and> cv m = V
                    \<and> (\<forall>x\<in>set pre. V < cv x) \<and> (\<forall>x\<in>set post. V \<le> cv x)))"
      by blast
    have eq: "best_loop child False (a # ms) bm bv = Some \<lparr>evaluation = V, bestMove = M\<rparr>"
      using ca True r by simp
    from d have "V < bv \<and> (\<exists>pre m post. a # ms = pre @ m # post \<and> M = Some m \<and> cv m = V
                    \<and> (\<forall>x\<in>set pre. V < cv x) \<and> (\<forall>x\<in>set post. V \<le> cv x))"
    proof
      assume h: "V = cv a \<and> M = Some a \<and> (\<forall>x\<in>set ms. cv a \<le> cv x)"
      then have "a # ms = [] @ a # ms \<and> M = Some a \<and> cv a = V
                    \<and> (\<forall>x\<in>set []. V < cv x) \<and> (\<forall>x\<in>set ms. V \<le> cv x)" by simp
      then show ?thesis using True h by blast
    next
      assume h: "V < cv a \<and> (\<exists>pre m post. ms = pre @ m # post \<and> M = Some m \<and> cv m = V
                    \<and> (\<forall>x\<in>set pre. V < cv x) \<and> (\<forall>x\<in>set post. V \<le> cv x))"
      then obtain pre m post where p: "ms = pre @ m # post" "M = Some m" "cv m = V"
        "\<forall>x\<in>set pre. V < cv x" "\<forall>x\<in>set post. V \<le> cv x" by blast
      have "a # ms = (a # pre) @ m # post \<and> M = Some m \<and> cv m = V
                    \<and> (\<forall>x\<in>set (a # pre). V < cv x) \<and> (\<forall>x\<in>set post. V \<le> cv x)"
        using p h by simp
      moreover have "V < bv" using conjunct1[OF h] True by (rule less_trans)
      ultimately show ?thesis by blast
    qed
    with eq show ?thesis by blast
  next
    case False
    from Cons.IH[OF rest, of bm bv] obtain V M where
      r: "best_loop child False ms bm bv = Some \<lparr>evaluation = V, bestMove = M\<rparr>"
      and d: "(V = bv \<and> M = bm \<and> (\<forall>x\<in>set ms. bv \<le> cv x))
             \<or> (V < bv \<and> (\<exists>pre m post. ms = pre @ m # post \<and> M = Some m \<and> cv m = V
                    \<and> (\<forall>x\<in>set pre. V < cv x) \<and> (\<forall>x\<in>set post. V \<le> cv x)))"
      by blast
    have eq: "best_loop child False (a # ms) bm bv = Some \<lparr>evaluation = V, bestMove = M\<rparr>"
      using ca False r by simp
    from d have "(V = bv \<and> M = bm \<and> (\<forall>x\<in>set (a # ms). bv \<le> cv x))
             \<or> (V < bv \<and> (\<exists>pre m post. a # ms = pre @ m # post \<and> M = Some m \<and> cv m = V
                    \<and> (\<forall>x\<in>set pre. V < cv x) \<and> (\<forall>x\<in>set post. V \<le> cv x)))"
    proof
      assume "V = bv \<and> M = bm \<and> (\<forall>x\<in>set ms. bv \<le> cv x)"
      then show ?thesis using False by simp
    next
      assume h: "V < bv \<and> (\<exists>pre m post. ms = pre @ m # post \<and> M = Some m \<and> cv m = V
                    \<and> (\<forall>x\<in>set pre. V < cv x) \<and> (\<forall>x\<in>set post. V \<le> cv x))"
      then obtain pre m post where p: "ms = pre @ m # post" "M = Some m" "cv m = V"
        "\<forall>x\<in>set pre. V < cv x" "\<forall>x\<in>set post. V \<le> cv x" by blast
      have "bv \<le> cv a" using False by simp
      with conjunct1[OF h] have "V < cv a" by (rule less_le_trans)
      then have "a # ms = (a # pre) @ m # post \<and> M = Some m \<and> cv m = V
                    \<and> (\<forall>x\<in>set (a # pre). V < cv x) \<and> (\<forall>x\<in>set post. V \<le> cv x)"
        using p by simp
      then show ?thesis using h by blast
    qed
    with eq show ?thesis by blast
  qed
qed

subsection \<open>Enough nesting gives a result\<close>

lemma max_loop_returns:
  assumes "\<And>m a b. m \<in> set ms \<Longrightarrow> \<exists>v. child m a b = Some v"
  shows "\<exists>v. max_loop child ms maxEval alpha beta = Some v"
  using assms
proof (induction ms arbitrary: maxEval alpha)
  case Nil
  show ?case by simp
next
  case (Cons m ms)
  obtain x where x: "child m alpha beta = Some x" using Cons.prems[of m] by auto
  have "\<exists>z. max_loop child ms (max maxEval x) (max alpha x) beta = Some z"
    by (rule Cons.IH) (simp add: Cons.prems)
  then show ?case using x by (simp add: Let_def)
qed

lemma min_loop_returns:
  assumes "\<And>m a b. m \<in> set ms \<Longrightarrow> \<exists>v. child m a b = Some v"
  shows "\<exists>v. min_loop child ms minEval alpha beta = Some v"
  using assms
proof (induction ms arbitrary: minEval beta)
  case Nil
  show ?case by simp
next
  case (Cons m ms)
  obtain x where x: "child m alpha beta = Some x" using Cons.prems[of m] by auto
  have "\<exists>z. min_loop child ms (min minEval x) alpha (min beta x) = Some z"
    by (rule Cons.IH) (simp add: Cons.prems)
  then show ?case using x by (simp add: Let_def)
qed

lemma minimax_returns:
  "0 \<le> depth \<Longrightarrow> nat depth < fuel \<Longrightarrow>
    \<exists>v. minimax fuel eng game depth alpha beta isMax = Some v"
proof (induction fuel arbitrary: depth game alpha beta isMax)
  case 0
  then show ?case by simp
next
  case (Suc fuel)
  show ?case
  proof (cases "depth = 0 \<or> isGameOver eng game")
    case True
    then show ?thesis by auto
  next
    case False
    have d: "0 \<le> depth - 1" "nat (depth - 1) < fuel" using False Suc.prems by auto
    have c: "\<And>m a b im. \<exists>x. minimax fuel eng (gameCopy eng game m) (depth - 1) a b im = Some x"
      using Suc.IH[OF d] by blast
    show ?thesis
    proof (cases isMax)
      case True
      have "\<exists>x. max_loop (\<lambda>m a b. minimax fuel eng (gameCopy eng game m) (depth - 1) a b False)
              (js_sort captures_first (moves eng game)) NegInf alpha beta = Some x"
        by (rule max_loop_returns) (use c in simp)
      then show ?thesis using False True by (simp add: Let_def)
    next
      case F: False
      have "\<exists>x. min_loop (\<lambda>m a b. minimax fuel eng (gameCopy eng game m) (depth - 1) a b True)
              (js_sort captures_first (moves eng game)) PosInf alpha beta = Some x"
        by (rule min_loop_returns) (use c in simp)
      then show ?thesis using False F by (simp add: Let_def)
    qed
  qed
qed

lemma root_child_returns:
  "1 \<le> depth \<Longrightarrow> nat depth \<le> fuel \<Longrightarrow> \<exists>v. root_child fuel eng game depth m = Some v"
  unfolding root_child_def by (rule minimax_returns) auto

lemma findBestMove_unfold:
  assumes "moves eng game \<noteq> []"
  shows "findBestMove fuel eng game depth =
    best_loop (root_child fuel eng game depth) (turn eng game = White)
      (capture_first_order (moves eng game))
      (Some (hd (capture_first_order (moves eng game))))
      (if turn eng game = White then NegInf else PosInf)"
proof -
  have "capture_first_order (moves eng game) \<noteq> []"
    using assms js_sort_eq_Nil[of root_cmp "moves eng game"] by (simp add: js_sort_root_cmp)
  then obtain m0 rest where "capture_first_order (moves eng game) = m0 # rest"
    by (cases "capture_first_order (moves eng game)") auto
  then show ?thesis using assms
    by (simp add: findBestMove_def Let_def js_sort_root_cmp root_child_def[abs_def])
qed

lemma findBestMove_first_best:
  assumes "moves eng game \<noteq> []" and "1 \<le> depth" and "nat depth \<le> fuel"
  shows "\<exists>m v pre post.
      findBestMove fuel eng game depth = Some \<lparr>evaluation = v, bestMove = Some m\<rparr>
    \<and> m \<in> set (moves eng game)
    \<and> root_child fuel eng game depth m = Some v
    \<and> (\<forall>m'\<in>set (moves eng game). \<exists>v'. root_child fuel eng game depth m' = Some v'
          \<and> (if turn eng game = White then v' \<le> v else v \<le> v'))
    \<and> js_sort root_cmp (moves eng game) = pre @ m # post
    \<and> capture_first_order (moves eng game) = pre @ m # post
    \<and> (\<forall>m'\<in>set pre. root_child fuel eng game depth m' \<noteq> Some v)"
proof -
  define cv where "cv = (\<lambda>m. the (root_child fuel eng game depth m))"
  define ms where "ms = capture_first_order (moves eng game)"
  have cv: "\<And>m. root_child fuel eng game depth m = Some (cv m)"
    using root_child_returns[OF assms(2,3)] unfolding cv_def by (metis option.sel)
  have set_ms: "set ms = set (moves eng game)"
    unfolding ms_def using set_js_sort[of root_cmp "moves eng game"] by (simp add: js_sort_root_cmp)
  have ne: "ms \<noteq> []" using set_ms assms(1) by auto
  then obtain m0 rest where m0: "ms = m0 # rest" by (cases ms) auto
  have unf: "findBestMove fuel eng game depth =
      best_loop (root_child fuel eng game depth) (turn eng game = White) ms (Some m0)
        (if turn eng game = White then NegInf else PosInf)"
    using findBestMove_unfold[OF assms(1)] m0 by (simp add: ms_def)
  have sorted: "js_sort root_cmp (moves eng game) = ms" by (simp add: ms_def js_sort_root_cmp)
  show ?thesis
  proof (cases "turn eng game = White")
    case True
    from best_loop_max[of ms "root_child fuel eng game depth" cv "Some m0" NegInf] cv
    obtain V M where r: "best_loop (root_child fuel eng game depth) True ms (Some m0) NegInf
          = Some \<lparr>evaluation = V, bestMove = M\<rparr>"
      and d: "(V = NegInf \<and> M = Some m0 \<and> (\<forall>x\<in>set ms. cv x \<le> NegInf))
             \<or> (NegInf < V \<and> (\<exists>pre m post. ms = pre @ m # post \<and> M = Some m \<and> cv m = V
                    \<and> (\<forall>x\<in>set pre. cv x < V) \<and> (\<forall>x\<in>set post. cv x \<le> V)))"
      by blast
    have "\<exists>pre m post. ms = pre @ m # post \<and> M = Some m \<and> cv m = V
                    \<and> (\<forall>x\<in>set pre. cv x < V) \<and> (\<forall>x\<in>set post. cv x \<le> V)"
      using d
    proof
      assume h: "V = NegInf \<and> M = Some m0 \<and> (\<forall>x\<in>set ms. cv x \<le> NegInf)"
      then have "ms = [] @ m0 # rest \<and> M = Some m0 \<and> cv m0 = V
                    \<and> (\<forall>x\<in>set []. cv x < V) \<and> (\<forall>x\<in>set rest. cv x \<le> V)"
        using m0 by simp
      then show ?thesis by blast
    next
      assume "NegInf < V \<and> (\<exists>pre m post. ms = pre @ m # post \<and> M = Some m \<and> cv m = V
                    \<and> (\<forall>x\<in>set pre. cv x < V) \<and> (\<forall>x\<in>set post. cv x \<le> V))"
      then show ?thesis by blast
    qed
    then obtain pre m post where p: "ms = pre @ m # post" "M = Some m" "cv m = V"
        "\<forall>x\<in>set pre. cv x < V" "\<forall>x\<in>set post. cv x \<le> V" by blast
    have a: "findBestMove fuel eng game depth = Some \<lparr>evaluation = V, bestMove = Some m\<rparr>"
      using unf r p(2) True by simp
    have b: "m \<in> set (moves eng game)" using p(1) set_ms by auto
    have c: "root_child fuel eng game depth m = Some V" using cv p(3) by simp
    have "\<forall>m'\<in>set ms. cv m' \<le> V" using p by auto
    then have e: "\<forall>m'\<in>set (moves eng game). \<exists>v'. root_child fuel eng game depth m' = Some v'
          \<and> (if turn eng game = White then v' \<le> V else V \<le> v')"
      using cv True set_ms by auto
    have f: "\<forall>m'\<in>set pre. root_child fuel eng game depth m' \<noteq> Some V"
      using p(4) cv by auto
    show ?thesis using a b c e f p(1) sorted unfolding ms_def[symmetric] by blast
  next
    case False
    from best_loop_min[of ms "root_child fuel eng game depth" cv "Some m0" PosInf] cv
    obtain V M where r: "best_loop (root_child fuel eng game depth) False ms (Some m0) PosInf
          = Some \<lparr>evaluation = V, bestMove = M\<rparr>"
      and d: "(V = PosInf \<and> M = Some m0 \<and> (\<forall>x\<in>set ms. PosInf \<le> cv x))
             \<or> (V < PosInf \<and> (\<exists>pre m post. ms = pre @ m # post \<and> M = Some m \<and> cv m = V
                    \<and> (\<forall>x\<in>set pre. V < cv x) \<and> (\<forall>x\<in>set post. V \<le> cv x)))"
      by blast
    have "\<exists>pre m post. ms = pre @ m # post \<and> M = Some m \<and> cv m = V
                    \<and> (\<forall>x\<in>set pre. V < cv x) \<and> (\<forall>x\<in>set post. V \<le> cv x)"
      using d
    proof
      assume h: "V = PosInf \<and> M = Some m0 \<and> (\<forall>x\<in>set ms. PosInf \<le> cv x)"
      then have "ms = [] @ m0 # rest \<and> M = Some m0 \<and> cv m0 = V
                    \<and> (\<forall>x\<in>set []. V < cv x) \<and> (\<forall>x\<in>set rest. V \<le> cv x)"
        using m0 by simp
      then show ?thesis by blast
    next
      assume "V < PosInf \<and> (\<exists>pre m post. ms = pre @ m # post \<and> M = Some m \<and> cv m = V
                    \<and> (\<forall>x\<in>set pre. V < cv x) \<and> (\<forall>x\<in>set post. V \<le> cv x))"
      then show ?thesis by blast
    qed
    then obtain pre m post where p: "ms = pre @ m # post" "M = Some m" "cv m = V"
        "\<forall>x\<in>set pre. V < cv x" "\<forall>x\<in>set post. V \<le> cv x" by blast
    have a: "findBestMove fuel eng game depth = Some \<lparr>evaluation = V, bestMove = Some m\<rparr>"
      using unf r p(2) False by simp
    have b: "m \<in> set (moves eng game)" using p(1) set_ms by auto
    have c: "root_child fuel eng game depth m = Some V" using cv p(3) by simp
    have "\<forall>m'\<in>set ms. V \<le> cv m'" using p by auto
    then have e: "\<forall>m'\<in>set (moves eng game). \<exists>v'. root_child fuel eng game depth m' = Some v'
          \<and> (if turn eng game = White then v' \<le> V else V \<le> v')"
      using cv False set_ms by auto
    have f: "\<forall>m'\<in>set pre. root_child fuel eng game depth m' \<noteq> Some V"
      using p(4) cv by auto
    show ?thesis using a b c e f p(1) sorted unfolding ms_def[symmetric] by blast
  qed
qed


text \<open>
  C2: on a position with a legal move, at a depth of at least 1 (and with the nesting of
  calls the depth needs), \<open>findBestMove\<close> returns a move \<open>m\<close> of the position and a value
  \<open>v\<close>; \<open>v\<close> is the value \<open>minimax\<close> gives for \<open>m\<close> at \<open>depth - 1\<close> with the full window, it
  is at least (White to move) or at most (Black to move) the value of every legal root
  move, and \<open>m\<close> is the first move with that value in the array after the root sort, which
  lists the captures before the quiet moves: no move before \<open>m\<close> has the value \<open>v\<close>.
\<close>

theorem findBestMove_selects:
  assumes "moves eng game \<noteq> []" and "1 \<le> depth" and "nat depth \<le> fuel"
  shows "\<exists>m v pre post.
      findBestMove fuel eng game depth = Some \<lparr>evaluation = v, bestMove = Some m\<rparr>
    \<and> m \<in> set (moves eng game)
    \<and> root_child fuel eng game depth m = Some v
    \<and> (\<forall>m'\<in>set (moves eng game). \<exists>v'. root_child fuel eng game depth m' = Some v'
          \<and> (if turn eng game = White then v' \<le> v else v \<le> v'))
    \<and> js_sort root_cmp (moves eng game) = pre @ m # post
    \<and> capture_first_order (moves eng game) = pre @ m # post
    \<and> (\<forall>m'\<in>set pre. root_child fuel eng game depth m' \<noteq> Some v)"
  using assms by (rule findBestMove_first_best)

theorem findBestMove_selects_witness:
  "moves toy [] \<noteq> [] \<and> (1::int) \<le> 2 \<and> nat 2 \<le> (2::nat)
   \<and> findBestMove 2 toy [] 2
       = Some \<lparr>evaluation = Fin 100, bestMove = Some (toy_move ''e'' None)\<rparr>
   \<and> findBestMove 1 toy [] 1
       = Some \<lparr>evaluation = Fin 100, bestMove = Some (toy_move ''a'' (Some Pawn))\<rparr>
   \<and> (\<exists>m v pre post.
      findBestMove 2 toy [] 2 = Some \<lparr>evaluation = v, bestMove = Some m\<rparr>
    \<and> m \<in> set (moves toy [])
    \<and> root_child 2 toy [] 2 m = Some v
    \<and> (\<forall>m'\<in>set (moves toy []). \<exists>v'. root_child 2 toy [] 2 m' = Some v'
          \<and> (if turn toy [] = White then v' \<le> v else v \<le> v'))
    \<and> js_sort root_cmp (moves toy []) = pre @ m # post
    \<and> capture_first_order (moves toy []) = pre @ m # post
    \<and> (\<forall>m'\<in>set pre. root_child 2 toy [] 2 m' \<noteq> Some v))"
proof -
  have h: "moves toy [] \<noteq> []" "(1::int) \<le> 2" "nat 2 \<le> (2::nat)" by (simp_all add: toy_simps)
  show ?thesis using h findBestMove_selects[OF h] toy_best_2 toy_best_1 by blast
qed

text \<open>
  C10: when the rules engine reports every position without legal moves as game over,
  \<open>minimax\<close> at a depth of at least 0 (with the nesting of calls the depth needs) returns a
  finite number for every window and either player, never \<open>-Infinity\<close> or \<open>Infinity\<close>; and
  \<open>findBestMove\<close> on a position with a legal move, one ply deeper, returns a move and a
  finite evaluation.
\<close>

theorem minimax_never_infinite:
  assumes "\<forall>g. moves eng g = [] \<longrightarrow> isGameOver eng g" and "0 \<le> depth" and "nat depth < fuel"
  shows "(\<exists>x. minimax fuel eng game depth alpha beta isMax = Some (Fin x))
    \<and> (moves eng game \<noteq> [] \<longrightarrow>
         (\<exists>x m. findBestMove fuel eng game (depth + 1)
                  = Some \<lparr>evaluation = Fin x, bestMove = Some m\<rparr>))"
proof
  show "\<exists>x. minimax fuel eng game depth alpha beta isMax = Some (Fin x)"
    using assms by (rule minimax_Fin)
  show "moves eng game \<noteq> [] \<longrightarrow>
         (\<exists>x m. findBestMove fuel eng game (depth + 1)
                  = Some \<lparr>evaluation = Fin x, bestMove = Some m\<rparr>)"
  proof
    assume ne: "moves eng game \<noteq> []"
    have d: "1 \<le> depth + 1" "nat (depth + 1) \<le> fuel" using assms(2,3) by auto
    from findBestMove_first_best[OF ne d] obtain m v where
      r: "findBestMove fuel eng game (depth + 1) = Some \<lparr>evaluation = v, bestMove = Some m\<rparr>"
      and c: "root_child fuel eng game (depth + 1) m = Some v" by blast
    have "\<exists>x. minimax fuel eng (gameCopy eng game m) depth NegInf PosInf
            (\<not> (turn eng game = White)) = Some (Fin x)"
      using assms by (rule minimax_Fin)
    then obtain x where "v = Fin x" using c by (auto simp: root_child_def)
    with r show "\<exists>x m. findBestMove fuel eng game (depth + 1)
                  = Some \<lparr>evaluation = Fin x, bestMove = Some m\<rparr>" by blast
  qed
qed

theorem minimax_never_infinite_witness:
  "\<not> (\<exists>g. moves toy g = [] \<and> \<not> isGameOver toy g) \<and> (0::int) \<le> 1 \<and> nat 1 < (2::nat)
   \<and> (\<exists>x. minimax 2 toy [] 1 NegInf PosInf True = Some (Fin x))
   \<and> moves toy [] \<noteq> []
   \<and> (\<exists>x m. findBestMove 2 toy [] (1 + 1) = Some \<lparr>evaluation = Fin x, bestMove = Some m\<rparr>)"
proof -
  have h: "\<forall>g. moves toy g = [] \<longrightarrow> isGameOver toy g" "(0::int) \<le> 1" "nat 1 < (2::nat)"
    by (simp_all add: toy_simps)
  have ne: "moves toy [] \<noteq> []" by (simp add: toy_simps)
  show ?thesis
    using h ne minimax_never_infinite[OF h, of "[]" NegInf PosInf True] by blast
qed

subsection \<open>The ranking of \<open>findTopMoves\<close>\<close>

lemma collect_loop_map:
  assumes "\<And>m. m \<in> set ms \<Longrightarrow> child m = Some (cv m)"
  shows "collect_loop child ms acc = Some (acc @ map (\<lambda>m. \<lparr>evaluation = cv m, move = m\<rparr>) ms)"
  using assms by (induction ms arbitrary: acc) simp_all

lemma sorted_ranking:
  "sorted_wrt (ranked isMax) (js_sort (ranking_cmp isMax) xs)"
proof -
  have "sorted_wrt (\<lambda>a b. \<not> ranking_cmp isMax b a < 0) (js_sort (ranking_cmp isMax) xs)"
    by (rule sorted_js_sort) (auto simp: ranking_cmp_neg split: if_splits)
  moreover have "(\<lambda>a b. \<not> ranking_cmp isMax b a < 0) = ranked isMax"
    by (auto simp: ranking_cmp_neg ranked_def fun_eq_iff)
  ultimately show ?thesis by simp
qed

lemma stable_ranking:
  "filter (\<lambda>e. evaluation e = v) (js_sort (ranking_cmp isMax) xs) = filter (\<lambda>e. evaluation e = v) xs"
  by (rule filter_js_sort) (simp add: ranking_cmp_neg)

lemma findTopMoves_unfold:
  assumes "\<And>m. m \<in> set (moves eng game) \<Longrightarrow> root_child fuel eng game depth m = Some (cv m)"
  shows "findTopMoves fuel eng game depth cnt =
    Some (slice0 (js_sort (ranking_cmp (turn eng game = White))
                   (map (\<lambda>m. \<lparr>evaluation = cv m, move = m\<rparr>) (moves eng game))) cnt)"
proof (cases "moves eng game = []")
  case True
  then show ?thesis by (simp add: findTopMoves_def js_sort_Nil slice0_def)
next
  case False
  have "collect_loop (root_child fuel eng game depth) (moves eng game) []
      = Some ([] @ map (\<lambda>m. \<lparr>evaluation = cv m, move = m\<rparr>) (moves eng game))"
    using assms by (rule collect_loop_map)
  then show ?thesis using False
    by (simp add: findTopMoves_def Let_def root_child_def[abs_def])
qed

lemma findTopMoves_ranking:
  assumes "1 \<le> depth" and "nat depth \<le> fuel" and "0 \<le> cnt"
  shows "\<exists>r full.
      findTopMoves fuel eng game depth cnt = Some r
    \<and> r = take (nat cnt) full
    \<and> length r \<le> nat cnt
    \<and> sorted_wrt (ranked (turn eng game = White)) r
    \<and> sorted_wrt (ranked (turn eng game = White)) full
    \<and> mset (map move full) = mset (moves eng game)
    \<and> (\<forall>e\<in>set full. root_child fuel eng game depth (move e) = Some (evaluation e))
    \<and> (\<forall>e\<in>set full. ranked (turn eng game = White) (hd full) e)
    \<and> (int (length (moves eng game)) \<le> cnt \<longrightarrow> r = full)
    \<and> (\<forall>v. map move (filter (\<lambda>e. evaluation e = v) full)
             = filter (\<lambda>m. root_child fuel eng game depth m = Some v) (moves eng game))"
proof -
  define cv where "cv = (\<lambda>m. the (root_child fuel eng game depth m))"
  have cv: "\<And>m. root_child fuel eng game depth m = Some (cv m)"
    using root_child_returns[OF assms(1,2)] unfolding cv_def by (metis option.sel)
  define evs where "evs = map (\<lambda>m. \<lparr>evaluation = cv m, move = m\<rparr>) (moves eng game)"
  define full where "full = js_sort (ranking_cmp (turn eng game = White)) evs"
  define r where "r = take (nat cnt) full"
  have res: "findTopMoves fuel eng game depth cnt = Some r"
    using findTopMoves_unfold[of eng game fuel depth cv cnt] cv assms(3)
    by (simp add: r_def full_def evs_def slice0_def)
  have s_full: "sorted_wrt (ranked (turn eng game = White)) full"
    unfolding full_def by (rule sorted_ranking)
  have s_r: "sorted_wrt (ranked (turn eng game = White)) r"
    unfolding r_def using s_full by (rule sorted_wrt_take)
  have ms: "mset full = mset evs" unfolding full_def by (rule mset_js_sort)
  have "mset (map move full) = image_mset move (mset evs)" using ms by simp
  also have "\<dots> = mset (map move evs)" by simp
  also have "map move evs = moves eng game" unfolding evs_def by (simp add: comp_def)
  finally have perm: "mset (map move full) = mset (moves eng game)" .
  have "set full = set evs" using ms by (metis set_mset_mset)
  then have vals: "\<forall>e\<in>set full. root_child fuel eng game depth (move e) = Some (evaluation e)"
    using cv by (auto simp: evs_def)
  have best: "\<forall>e\<in>set full. ranked (turn eng game = White) (hd full) e"
  proof
    fix e assume e: "e \<in> set full"
    then obtain x xs where x: "full = x # xs" by (cases full) auto
    show "ranked (turn eng game = White) (hd full) e"
      using e s_full unfolding x by (auto simp: ranked_def)
  qed
  have len: "length full = length (moves eng game)"
    unfolding full_def evs_def by (simp add: length_js_sort)
  have all: "int (length (moves eng game)) \<le> cnt \<longrightarrow> r = full"
    unfolding r_def using len by auto
  have stab: "\<forall>v. map move (filter (\<lambda>e. evaluation e = v) full)
             = filter (\<lambda>m. root_child fuel eng game depth m = Some v) (moves eng game)"
  proof
    fix v
    have "filter (\<lambda>e. evaluation e = v) full = filter (\<lambda>e. evaluation e = v) evs"
      unfolding full_def by (rule stable_ranking)
    also have "map move \<dots> = filter (\<lambda>m. cv m = v) (moves eng game)"
      unfolding evs_def by (simp add: filter_map comp_def)
    finally show "map move (filter (\<lambda>e. evaluation e = v) full)
             = filter (\<lambda>m. root_child fuel eng game depth m = Some v) (moves eng game)"
      using cv by simp
  qed
  have "length r \<le> nat cnt" unfolding r_def by simp
  with res s_r s_full perm vals best all stab show ?thesis unfolding r_def by blast
qed


text \<open>
  C3: at a depth of at least 1 (with the nesting of calls the depth needs) and a count of
  at least 0, \<open>findTopMoves\<close> returns the first \<open>count\<close> entries of the full ranking, so at
  most \<open>count\<close> entries. The full ranking is sorted by evaluation, descending when White is
  to move and ascending when Black is, has every legal move exactly once, each with the
  value \<open>minimax\<close> gives it at \<open>depth - 1\<close>, and its first entry is weakly best. When the
  count is at least the number of legal moves the result is the full ranking. The moves
  of any one evaluation stand in the order in which the engine listed them.
\<close>

theorem findTopMoves_sorted:
  assumes "1 \<le> depth" and "nat depth \<le> fuel" and "0 \<le> cnt"
  shows "\<exists>r full.
      findTopMoves fuel eng game depth cnt = Some r
    \<and> r = take (nat cnt) full
    \<and> length r \<le> nat cnt
    \<and> sorted_wrt (ranked (turn eng game = White)) r
    \<and> sorted_wrt (ranked (turn eng game = White)) full
    \<and> mset (map move full) = mset (moves eng game)
    \<and> (\<forall>e\<in>set full. root_child fuel eng game depth (move e) = Some (evaluation e))
    \<and> (\<forall>e\<in>set full. ranked (turn eng game = White) (hd full) e)
    \<and> (int (length (moves eng game)) \<le> cnt \<longrightarrow> r = full)
    \<and> (\<forall>v. map move (filter (\<lambda>e. evaluation e = v) full)
             = filter (\<lambda>m. root_child fuel eng game depth m = Some v) (moves eng game))"
  using assms by (rule findTopMoves_ranking)

theorem findTopMoves_sorted_witness:
  "(1::int) \<le> 2 \<and> nat 2 \<le> (2::nat) \<and> (0::int) \<le> 2
   \<and> findTopMoves 2 toy [] 2 2
       = Some [\<lparr>evaluation = Fin 100, move = toy_move ''e'' None\<rparr>,
               \<lparr>evaluation = Fin (- 5), move = toy_move ''a'' (Some Pawn)\<rparr>]
   \<and> findTopMoves 2 toy ''a'' 2 2
       = Some [\<lparr>evaluation = Fin (- 5), move = toy_move ''a'' None\<rparr>,
               \<lparr>evaluation = Fin (- 5), move = toy_move ''h'' (Some Knight)\<rparr>]
   \<and> (\<exists>r full.
      findTopMoves 2 toy [] 2 2 = Some r
    \<and> r = take (nat 2) full
    \<and> length r \<le> nat 2
    \<and> sorted_wrt (ranked (turn toy [] = White)) r
    \<and> sorted_wrt (ranked (turn toy [] = White)) full
    \<and> mset (map move full) = mset (moves toy [])
    \<and> (\<forall>e\<in>set full. root_child 2 toy [] 2 (move e) = Some (evaluation e))
    \<and> (\<forall>e\<in>set full. ranked (turn toy [] = White) (hd full) e)
    \<and> (int (length (moves toy [])) \<le> 2 \<longrightarrow> r = full)
    \<and> (\<forall>v. map move (filter (\<lambda>e. evaluation e = v) full)
             = filter (\<lambda>m. root_child 2 toy [] 2 m = Some v) (moves toy [])))"
proof -
  have h: "(1::int) \<le> 2" "nat 2 \<le> (2::nat)" "(0::int) \<le> 2" by simp_all
  show ?thesis using h findTopMoves_sorted[OF h, of toy "[]"] toy_top_2 toy_top_black by blast
qed

subsection \<open>Pruning and move ordering do not change the value\<close>

lemma fold_max_ge: "acc \<le> fold (\<lambda>m acc. max acc (f m)) ms (acc::jsnum)"
proof (induction ms arbitrary: acc)
  case Nil
  show ?case by simp
next
  case (Cons m ms)
  have "acc \<le> max acc (f m)" by simp
  also have "\<dots> \<le> fold (\<lambda>m acc. max acc (f m)) ms (max acc (f m))" by (rule Cons.IH)
  finally show ?case by simp
qed

lemma fold_min_le: "fold (\<lambda>m acc. min acc (f m)) ms (acc::jsnum) \<le> acc"
proof (induction ms arbitrary: acc)
  case Nil
  show ?case by simp
next
  case (Cons m ms)
  have "fold (\<lambda>m acc. min acc (f m)) ms (min acc (f m)) \<le> min acc (f m)" by (rule Cons.IH)
  also have "\<dots> \<le> acc" by simp
  finally show ?case by simp
qed

lemma max_loop_fail_soft:
  assumes "\<And>m a b. m \<in> set ms \<Longrightarrow> a < b \<Longrightarrow> \<exists>v. child m a b = Some v \<and> fail_soft a b (ex m) v"
    and "alpha < beta" and "alpha = max alpha0 maxEval" and "E0 \<le> maxEval"
    and "alpha0 < maxEval \<longrightarrow> E0 = maxEval"
  shows "\<exists>r. max_loop child ms maxEval alpha beta = Some r
             \<and> fail_soft alpha0 beta (fold (\<lambda>m acc. max acc (ex m)) ms E0) r"
  using assms
proof (induction ms arbitrary: maxEval alpha E0)
  case Nil
  then show ?case by (auto simp: fail_soft_def max_def split: if_splits)
next
  case (Cons m ms)
  from Cons.prems(1)[of m alpha beta] Cons.prems(2)
  obtain v where v: "child m alpha beta = Some v" and fs: "fail_soft alpha beta (ex m) v" by auto
  show ?case
  proof (cases "beta \<le> max alpha v")
    case True
    then have bv: "beta \<le> v" using Cons.prems(2) by (auto simp: max_def split: if_splits)
    have "maxEval \<le> alpha" using Cons.prems(3) by simp
    then have mv: "max maxEval v = v" using bv Cons.prems(2) by (auto simp: max_def)
    have "v \<le> ex m" using fs bv by (simp add: fail_soft_def)
    also have "\<dots> \<le> max E0 (ex m)" by simp
    also have "\<dots> \<le> fold (\<lambda>m acc. max acc (ex m)) ms (max E0 (ex m))" by (rule fold_max_ge)
    finally have le: "v \<le> fold (\<lambda>m acc. max acc (ex m)) (m # ms) E0" by simp
    have a0: "alpha0 < beta" using Cons.prems(2,3) by auto
    have "max_loop child (m # ms) maxEval alpha beta = Some v"
      using v True mv by (simp add: Let_def)
    moreover have "fail_soft alpha0 beta (fold (\<lambda>m acc. max acc (ex m)) (m # ms) E0) v"
      using le bv a0 unfolding fail_soft_def by auto
    ultimately show ?thesis by blast
  next
    case False
    then have lt: "max alpha v < beta" using not_le by blast
    then have vb: "v < beta" by simp
    have ev: "ex m \<le> v" using fs vb unfolding fail_soft_def by (cases "v \<le> alpha") auto
    have p3: "max alpha v = max alpha0 (max maxEval v)" using Cons.prems(3) by (simp add: max.assoc)
    have p4: "max E0 (ex m) \<le> max maxEval v" using Cons.prems(4) ev by (auto simp: max_def)
    have p5: "alpha0 < max maxEval v \<longrightarrow> max E0 (ex m) = max maxEval v"
    proof
      assume h: "alpha0 < max maxEval v"
      show "max E0 (ex m) = max maxEval v"
      proof (cases "v \<le> maxEval")
        case True
        then have "alpha0 < maxEval" using h by (simp add: max_def)
        then have "E0 = maxEval" using Cons.prems(5) by simp
        then show ?thesis using True ev by (auto simp: max_def)
      next
        case F: False
        then have "alpha < v" using h Cons.prems(3) by (auto simp: max_def split: if_splits)
        then have "v = ex m" using fs vb by (simp add: fail_soft_def)
        then show ?thesis using F Cons.prems(4) by (auto simp: max_def)
      qed
    qed
    have rest: "\<And>m' a b. m' \<in> set ms \<Longrightarrow> a < b \<Longrightarrow>
        \<exists>v. child m' a b = Some v \<and> fail_soft a b (ex m') v"
      using Cons.prems(1) by simp
    from Cons.IH[OF rest lt p3 p4 p5]
    obtain r where r: "max_loop child ms (max maxEval v) (max alpha v) beta = Some r"
      and fr: "fail_soft alpha0 beta (fold (\<lambda>m acc. max acc (ex m)) ms (max E0 (ex m))) r"
      by blast
    have "max_loop child (m # ms) maxEval alpha beta = Some r"
      using v False r by (simp add: Let_def)
    then show ?thesis using fr by simp
  qed
qed


lemma min_loop_fail_soft:
  assumes "\<And>m a b. m \<in> set ms \<Longrightarrow> a < b \<Longrightarrow> \<exists>v. child m a b = Some v \<and> fail_soft a b (ex m) v"
    and "alpha < beta" and "beta = min beta0 minEval" and "minEval \<le> E0"
    and "minEval < beta0 \<longrightarrow> E0 = minEval"
  shows "\<exists>r. min_loop child ms minEval alpha beta = Some r
             \<and> fail_soft alpha beta0 (fold (\<lambda>m acc. min acc (ex m)) ms E0) r"
  using assms
proof (induction ms arbitrary: minEval beta E0)
  case Nil
  then show ?case by (auto simp: fail_soft_def min_def split: if_splits)
next
  case (Cons m ms)
  from Cons.prems(1)[of m alpha beta] Cons.prems(2)
  obtain v where v: "child m alpha beta = Some v" and fs: "fail_soft alpha beta (ex m) v" by auto
  show ?case
  proof (cases "min beta v \<le> alpha")
    case True
    then have va: "v \<le> alpha" using Cons.prems(2) by (auto simp: min_def split: if_splits)
    have "beta \<le> minEval" using Cons.prems(3) by simp
    then have mv: "min minEval v = v" using va Cons.prems(2) by (auto simp: min_def)
    have "fold (\<lambda>m acc. min acc (ex m)) ms (min E0 (ex m)) \<le> min E0 (ex m)" by (rule fold_min_le)
    also have "\<dots> \<le> ex m" by simp
    also have "\<dots> \<le> v" using fs va by (simp add: fail_soft_def)
    finally have le: "fold (\<lambda>m acc. min acc (ex m)) (m # ms) E0 \<le> v" by simp
    have b0: "alpha < beta0" using Cons.prems(2,3) by auto
    have "min_loop child (m # ms) minEval alpha beta = Some v"
      using v True mv by (simp add: Let_def)
    moreover have "fail_soft alpha beta0 (fold (\<lambda>m acc. min acc (ex m)) (m # ms) E0) v"
      using le va b0 unfolding fail_soft_def by auto
    ultimately show ?thesis by blast
  next
    case False
    then have lt: "alpha < min beta v" using not_le by blast
    then have av: "alpha < v" by simp
    have ev: "v \<le> ex m" using fs av unfolding fail_soft_def by (cases "beta \<le> v") auto
    have p3: "min beta v = min beta0 (min minEval v)" using Cons.prems(3) by (simp add: min.assoc)
    have p4: "min minEval v \<le> min E0 (ex m)" using Cons.prems(4) ev by (auto simp: min_def)
    have p5: "min minEval v < beta0 \<longrightarrow> min E0 (ex m) = min minEval v"
    proof
      assume h: "min minEval v < beta0"
      show "min E0 (ex m) = min minEval v"
      proof (cases "minEval \<le> v")
        case True
        then have "minEval < beta0" using h by (simp add: min_def)
        then have "E0 = minEval" using Cons.prems(5) by simp
        then show ?thesis using True ev by (auto simp: min_def)
      next
        case F: False
        then have "v < beta" using h Cons.prems(3) by (auto simp: min_def split: if_splits)
        then have "v = ex m" using fs av by (simp add: fail_soft_def)
        then show ?thesis using F Cons.prems(4) by (auto simp: min_def)
      qed
    qed
    have rest: "\<And>m' a b. m' \<in> set ms \<Longrightarrow> a < b \<Longrightarrow>
        \<exists>v. child m' a b = Some v \<and> fail_soft a b (ex m') v"
      using Cons.prems(1) by simp
    from Cons.IH[OF rest lt p3 p4 p5]
    obtain r where r: "min_loop child ms (min minEval v) alpha (min beta v) = Some r"
      and fr: "fail_soft alpha beta0 (fold (\<lambda>m acc. min acc (ex m)) ms (min E0 (ex m))) r"
      by blast
    have "min_loop child (m # ms) minEval alpha beta = Some r"
      using v False r by (simp add: Let_def)
    then show ?thesis using fr by simp
  qed
qed

lemma fold_max_perm:
  "mset xs = mset ys \<Longrightarrow>
     fold (\<lambda>m acc. max acc (f m)) xs (a::jsnum) = fold (\<lambda>m acc. max acc (f m)) ys a"
proof -
  assume "mset xs = mset ys"
  then have "fold (\<lambda>m acc. max acc (f m)) xs = fold (\<lambda>m acc. max acc (f m)) ys"
    by (rule fold_multiset_equiv[rotated]) (auto simp: fun_eq_iff max.assoc max.left_commute max.commute)
  then show ?thesis by simp
qed

lemma fold_min_perm:
  "mset xs = mset ys \<Longrightarrow>
     fold (\<lambda>m acc. min acc (f m)) xs (a::jsnum) = fold (\<lambda>m acc. min acc (f m)) ys a"
proof -
  assume "mset xs = mset ys"
  then have "fold (\<lambda>m acc. min acc (f m)) xs = fold (\<lambda>m acc. min acc (f m)) ys"
    by (rule fold_multiset_equiv[rotated]) (auto simp: fun_eq_iff min.assoc min.left_commute min.commute)
  then show ?thesis by simp
qed

lemma minimax_fail_soft:
  "d < fuel \<Longrightarrow> alpha < beta \<Longrightarrow>
     \<exists>v. minimax fuel eng game (int d) alpha beta isMax = Some v
        \<and> fail_soft alpha beta (minimax_full eng d game isMax) v"
proof (induction fuel arbitrary: d game alpha beta isMax)
  case 0
  then show ?case by simp
next
  case (Suc fuel)
  note IH = Suc.IH and prems = Suc.prems
  show ?case
  proof (cases d)
    case 0
    then show ?thesis by (simp add: fail_soft_def)
  next
    case d: (Suc d')
    show ?thesis
    proof (cases "isGameOver eng game")
      case True
      then show ?thesis using d by (simp add: fail_soft_def)
    next
      case False
      have d': "d' < fuel" using d prems by simp
      have perm: "mset (js_sort captures_first (moves eng game)) = mset (moves eng game)"
        by (rule mset_js_sort)
      show ?thesis
      proof (cases isMax)
        case True
        have "\<exists>r. max_loop (\<lambda>m a b. minimax fuel eng (gameCopy eng game m) (int d') a b False)
                 (js_sort captures_first (moves eng game)) NegInf alpha beta = Some r
             \<and> fail_soft alpha beta
                 (fold (\<lambda>m acc. max acc (minimax_full eng d' (gameCopy eng game m) False))
                    (js_sort captures_first (moves eng game)) NegInf) r"
          by (rule max_loop_fail_soft) (use IH[OF d'] prems(2) in simp_all)
        then show ?thesis using False True fold_max_perm[OF perm]
          by (simp add: d Let_def)
      next
        case F: False
        have "\<exists>r. min_loop (\<lambda>m a b. minimax fuel eng (gameCopy eng game m) (int d') a b True)
                 (js_sort captures_first (moves eng game)) PosInf alpha beta = Some r
             \<and> fail_soft alpha beta
                 (fold (\<lambda>m acc. min acc (minimax_full eng d' (gameCopy eng game m) True))
                    (js_sort captures_first (moves eng game)) PosInf) r"
          by (rule min_loop_fail_soft) (use IH[OF d'] prems(2) in simp_all)
        then show ?thesis using False F fold_min_perm[OF perm]
          by (simp add: d Let_def)
      qed
    qed
  qed
qed

lemma fail_soft_full_window: "fail_soft NegInf PosInf e v \<Longrightarrow> v = e"
  unfolding fail_soft_def by (cases v; cases e) auto

lemma minimax_full_window:
  "d < fuel \<Longrightarrow> minimax fuel eng game (int d) NegInf PosInf isMax = Some (minimax_full eng d game isMax)"
  using minimax_fail_soft[of d fuel NegInf PosInf eng game isMax] fail_soft_full_window by auto


lemma best_loop_max_value:
  assumes "\<And>m. m \<in> set ms \<Longrightarrow> child m = Some (cv m)"
  shows "map_option evaluation (best_loop child True ms bm bv)
         = Some (fold (\<lambda>m acc. max acc (cv m)) ms bv)"
  using assms
proof (induction ms arbitrary: bm bv)
  case Nil
  show ?case by simp
next
  case (Cons a ms)
  have ca: "child a = Some (cv a)" using Cons.prems by simp
  have rest: "\<And>m. m \<in> set ms \<Longrightarrow> child m = Some (cv m)" using Cons.prems by simp
  show ?case
  proof (cases "bv < cv a")
    case True
    then have "max bv (cv a) = cv a" by (simp add: max_absorb2 less_imp_le)
    then show ?thesis using ca True Cons.IH[OF rest, of "Some a" "cv a"] by simp
  next
    case False
    then have "max bv (cv a) = bv" by (simp add: max_absorb1 not_less)
    then show ?thesis using ca False Cons.IH[OF rest, of bm bv] by simp
  qed
qed

lemma best_loop_min_value:
  assumes "\<And>m. m \<in> set ms \<Longrightarrow> child m = Some (cv m)"
  shows "map_option evaluation (best_loop child False ms bm bv)
         = Some (fold (\<lambda>m acc. min acc (cv m)) ms bv)"
  using assms
proof (induction ms arbitrary: bm bv)
  case Nil
  show ?case by simp
next
  case (Cons a ms)
  have ca: "child a = Some (cv a)" using Cons.prems by simp
  have rest: "\<And>m. m \<in> set ms \<Longrightarrow> child m = Some (cv m)" using Cons.prems by simp
  show ?case
  proof (cases "cv a < bv")
    case True
    then have "min bv (cv a) = cv a" by (simp add: min_absorb2 less_imp_le)
    then show ?thesis using ca True Cons.IH[OF rest, of "Some a" "cv a"] by simp
  next
    case False
    then have "min bv (cv a) = bv" by (simp add: min_absorb1 not_less)
    then show ?thesis using ca False Cons.IH[OF rest, of bm bv] by simp
  qed
qed

lemma root_child_exact:
  assumes "1 \<le> depth" and "nat depth \<le> fuel"
  shows "root_child fuel eng game depth m
         = Some (minimax_full eng (nat depth - 1) (gameCopy eng game m) (\<not> (turn eng game = White)))"
proof -
  have "nat depth - 1 < fuel" using assms by auto
  moreover have "int (nat depth - 1) = depth - 1" using assms by auto
  ultimately show ?thesis
    using minimax_full_window[of "nat depth - 1" fuel eng "gameCopy eng game m"
        "\<not> (turn eng game = White)"]
    by (simp add: root_child_def)
qed

lemma findBestMove_exact:
  assumes "1 \<le> depth" and "nat depth \<le> fuel"
  shows "map_option evaluation (findBestMove fuel eng game depth)
         = Some (findBestMove_full eng game (nat depth))"
proof (cases "moves eng game = []")
  case True
  then show ?thesis by (simp add: findBestMove_def findBestMove_full_def)
next
  case False
  have perm: "mset (capture_first_order (moves eng game)) = mset (moves eng game)"
    using mset_js_sort[of root_cmp "moves eng game"] by (simp add: js_sort_root_cmp)
  have cv: "\<And>m. root_child fuel eng game depth m
         = Some (minimax_full eng (nat depth - 1) (gameCopy eng game m) (\<not> (turn eng game = White)))"
    using assms by (rule root_child_exact)
  show ?thesis
  proof (cases "turn eng game = White")
    case True
    have "map_option evaluation (best_loop (root_child fuel eng game depth) True
            (capture_first_order (moves eng game))
            (Some (hd (capture_first_order (moves eng game)))) NegInf)
        = Some (fold (\<lambda>m acc. max acc (minimax_full eng (nat depth - 1) (gameCopy eng game m) False))
                  (capture_first_order (moves eng game)) NegInf)"
      by (rule best_loop_max_value) (use cv True in simp)
    then show ?thesis
      using False True findBestMove_unfold[OF False, of fuel depth] fold_max_perm[OF perm]
      by (simp add: findBestMove_full_def)
  next
    case F: False
    have "map_option evaluation (best_loop (root_child fuel eng game depth) False
            (capture_first_order (moves eng game))
            (Some (hd (capture_first_order (moves eng game)))) PosInf)
        = Some (fold (\<lambda>m acc. min acc (minimax_full eng (nat depth - 1) (gameCopy eng game m) True))
                  (capture_first_order (moves eng game)) PosInf)"
      by (rule best_loop_min_value) (use cv F in simp)
    then show ?thesis
      using False F findBestMove_unfold[OF False, of fuel depth] fold_min_perm[OF perm]
      by (simp add: findBestMove_full_def)
  qed
qed

lemma findBestMove_full_root:
  assumes "isGameOver eng game \<longleftrightarrow> moves eng game = []" and "0 < d"
  shows "findBestMove_full eng game d = minimax_full eng d game (turn eng game = White)"
proof -
  obtain d' where d: "d = Suc d'" using assms(2) by (cases d) auto
  show ?thesis using assms(1) unfolding d by (simp add: findBestMove_full_def)
qed

text \<open>
  C1: at every depth of at least 1 (in particular from 1 to 4), with the nesting of calls
  the depth needs, the evaluation that \<open>findBestMove\<close> returns is the root value of the
  search without pruning and without move ordering over the same tree, the tree whose
  root has one child for every legal move; and \<open>minimax\<close> itself with the full window
  returns the value of the search without pruning. When the engine reports the root as
  game over exactly when it has no legal move, the root value is that of the unpruned
  \<open>minimax\<close> at the root.
\<close>

theorem pruning_preserves_value:
  assumes "1 \<le> depth" and "nat depth \<le> fuel"
  shows "map_option evaluation (findBestMove fuel eng game depth)
           = Some (findBestMove_full eng game (nat depth))
       \<and> minimax fuel eng game (depth - 1) NegInf PosInf isMax
           = Some (minimax_full eng (nat depth - 1) game isMax)
       \<and> ((isGameOver eng game \<longleftrightarrow> moves eng game = []) \<longrightarrow>
            findBestMove_full eng game (nat depth)
              = minimax_full eng (nat depth) game (turn eng game = White))"
proof (intro conjI)
  show "map_option evaluation (findBestMove fuel eng game depth)
           = Some (findBestMove_full eng game (nat depth))"
    using assms by (rule findBestMove_exact)
  have "nat depth - 1 < fuel" using assms by auto
  moreover have "int (nat depth - 1) = depth - 1" using assms by auto
  ultimately show "minimax fuel eng game (depth - 1) NegInf PosInf isMax
           = Some (minimax_full eng (nat depth - 1) game isMax)"
    using minimax_full_window[of "nat depth - 1" fuel eng game isMax] by simp
  have "0 < nat depth" using assms(1) by simp
  then show "(isGameOver eng game \<longleftrightarrow> moves eng game = []) \<longrightarrow>
            findBestMove_full eng game (nat depth)
              = minimax_full eng (nat depth) game (turn eng game = White)"
    using findBestMove_full_root[of eng game "nat depth"] by blast
qed

theorem pruning_preserves_value_witness:
  "(1::int) \<le> 3 \<and> nat 3 \<le> (3::nat)
   \<and> findBestMove 3 toy [] 3
       = Some \<lparr>evaluation = Fin 100, bestMove = Some (toy_move ''e'' None)\<rparr>
   \<and> findBestMove_full toy [] 3 = Fin 100
   \<and> map_option evaluation (findBestMove 3 toy [] 3) = Some (findBestMove_full toy [] (nat 3))
   \<and> minimax 3 toy [] (3 - 1) NegInf PosInf True = Some (minimax_full toy (nat 3 - 1) [] True)
   \<and> (isGameOver toy [] \<longleftrightarrow> moves toy [] = [])
   \<and> findBestMove_full toy [] (nat 3) = minimax_full toy (nat 3) [] (turn toy [] = White)"
proof -
  have h: "(1::int) \<le> 3" "nat 3 \<le> (3::nat)" by simp_all
  have g: "isGameOver toy [] \<longleftrightarrow> moves toy [] = []" by (simp add: toy_simps)
  show ?thesis
    using h g pruning_preserves_value[OF h, of toy "[]" True] toy_best_3 toy_full_3 by blast
qed

section \<open>The search leaves the objects of its caller alone\<close>

lemma extends_refl: "extends s s"
  by (simp add: extends_def)

lemma extends_trans: "extends s s1 \<Longrightarrow> extends s1 s2 \<Longrightarrow> extends s s2"
  unfolding extends_def by (metis min.absorb2 order_trans take_take min.commute)

lemma extends_nth: "extends s s' \<Longrightarrow> g < length s \<Longrightarrow> s' ! g = s ! g"
  unfolding extends_def by (metis nth_take)

lemma extends_append: "extends s (s @ xs)"
  by (simp add: extends_def)

lemma frames_weaken: "frames res pure s1 \<Longrightarrow> extends s s1 \<Longrightarrow> frames res pure s"
  unfolding frames_def by (auto split: option.splits intro: extends_trans)

lemma gameCopy_s_eq:
  "gameCopy_s eng game m s = (length s, s @ [gameCopy eng (s ! game) m])"
  by (simp add: gameCopy_s_def new_Chess_s_def move_s_def gameCopy_def)

lemma max_loop_s_frames:
  assumes "\<And>m a b s1. m \<in> set ms \<Longrightarrow> extends s s1 \<Longrightarrow> frames (child_s m a b s1) (child m a b) s1"
    and "extends s s1"
  shows "frames (max_loop_s child_s ms e a b s1) (max_loop child ms e a b) s1"
  using assms
proof (induction ms arbitrary: e a s1)
  case Nil
  show ?case by (simp add: frames_def extends_refl)
next
  case (Cons m ms)
  have fc: "frames (child_s m a b s1) (child m a b) s1" using Cons.prems by simp
  show ?case
  proof (cases "child_s m a b s1")
    case None
    then show ?thesis using fc by (simp add: frames_def)
  next
    case (Some p)
    obtain ev s2 where p: "p = (ev, s2)" by (cases p)
    have c: "child m a b = Some ev" and e12: "extends s1 s2"
      using fc Some p by (simp_all add: frames_def)
    show ?thesis
    proof (cases "b \<le> max a ev")
      case True
      then show ?thesis using Some p c e12 by (simp add: frames_def Let_def)
    next
      case False
      have "extends s s2" using Cons.prems(2) e12 by (rule extends_trans)
      then have "frames (max_loop_s child_s ms (max e ev) (max a ev) b s2)
                   (max_loop child ms (max e ev) (max a ev) b) s2"
        using Cons.prems(1) by (intro Cons.IH) simp_all
      then have "frames (max_loop_s child_s ms (max e ev) (max a ev) b s2)
                   (max_loop child ms (max e ev) (max a ev) b) s1"
        using e12 by (rule frames_weaken)
      then show ?thesis using Some p c False by (simp add: Let_def)
    qed
  qed
qed

lemma min_loop_s_frames:
  assumes "\<And>m a b s1. m \<in> set ms \<Longrightarrow> extends s s1 \<Longrightarrow> frames (child_s m a b s1) (child m a b) s1"
    and "extends s s1"
  shows "frames (min_loop_s child_s ms e a b s1) (min_loop child ms e a b) s1"
  using assms
proof (induction ms arbitrary: e b s1)
  case Nil
  show ?case by (simp add: frames_def extends_refl)
next
  case (Cons m ms)
  have fc: "frames (child_s m a b s1) (child m a b) s1" using Cons.prems by simp
  show ?case
  proof (cases "child_s m a b s1")
    case None
    then show ?thesis using fc by (simp add: frames_def)
  next
    case (Some p)
    obtain ev s2 where p: "p = (ev, s2)" by (cases p)
    have c: "child m a b = Some ev" and e12: "extends s1 s2"
      using fc Some p by (simp_all add: frames_def)
    show ?thesis
    proof (cases "min b ev \<le> a")
      case True
      then show ?thesis using Some p c e12 by (simp add: frames_def Let_def)
    next
      case False
      have "extends s s2" using Cons.prems(2) e12 by (rule extends_trans)
      then have "frames (min_loop_s child_s ms (min e ev) a (min b ev) s2)
                   (min_loop child ms (min e ev) a (min b ev)) s2"
        using Cons.prems(1) by (intro Cons.IH) simp_all
      then have "frames (min_loop_s child_s ms (min e ev) a (min b ev) s2)
                   (min_loop child ms (min e ev) a (min b ev)) s1"
        using e12 by (rule frames_weaken)
      then show ?thesis using Some p c False by (simp add: Let_def)
    qed
  qed
qed

lemma child_s_frames:
  assumes IH: "\<And>g d a b im s0. g < length s0 \<Longrightarrow>
      frames (minimax_s fuel eng g d a b im s0) (minimax fuel eng (s0 ! g) d a b im) s0"
    and "game < length s" and "extends s s1"
  shows "frames (case gameCopy_s eng game m s1 of
                   (copy, s2) \<Rightarrow> minimax_s fuel eng copy d a b im s2)
           (minimax fuel eng (gameCopy eng (s ! game) m) d a b im) s1"
proof -
  let ?s2 = "s1 @ [gameCopy eng (s1 ! game) m]"
  have g: "s1 ! game = s ! game" using assms(3,2) by (rule extends_nth)
  have "frames (minimax_s fuel eng (length s1) d a b im ?s2)
          (minimax fuel eng (?s2 ! length s1) d a b im) ?s2"
    by (rule IH) simp
  then have "frames (minimax_s fuel eng (length s1) d a b im ?s2)
          (minimax fuel eng (gameCopy eng (s ! game) m) d a b im) ?s2"
    using g by simp
  then have "frames (minimax_s fuel eng (length s1) d a b im ?s2)
          (minimax fuel eng (gameCopy eng (s ! game) m) d a b im) s1"
    using extends_append by (rule frames_weaken)
  then show ?thesis by (simp add: gameCopy_s_eq)
qed

lemma minimax_s_frames:
  "game < length s \<Longrightarrow>
     frames (minimax_s fuel eng game depth alpha beta isMax s)
       (minimax fuel eng (s ! game) depth alpha beta isMax) s"
proof (induction fuel arbitrary: game depth alpha beta isMax s)
  case 0
  show ?case by (simp add: frames_def)
next
  case (Suc fuel)
  note IH = Suc.IH and g = Suc.prems
  show ?case
  proof (cases "depth = 0 \<or> isGameOver eng (s ! game)")
    case True
    then show ?thesis by (auto simp: frames_def extends_refl evaluateBoard_s_def)
  next
    case False
    show ?thesis
    proof (cases isMax)
      case True
      have "frames
        (max_loop_s
          (\<lambda>m a b s1. case gameCopy_s eng game m s1 of
                           (copy, s2) \<Rightarrow> minimax_s fuel eng copy (depth - 1) a b False s2)
          (js_sort captures_first (moves eng (s ! game))) NegInf alpha beta s)
        (max_loop (\<lambda>m a b. minimax fuel eng (gameCopy eng (s ! game) m) (depth - 1) a b False)
          (js_sort captures_first (moves eng (s ! game))) NegInf alpha beta) s"
      proof (rule max_loop_s_frames[where s = s])
        fix m a b s1 assume "extends s s1"
        with IH g show "frames (case gameCopy_s eng game m s1 of
                   (copy, s2) \<Rightarrow> minimax_s fuel eng copy (depth - 1) a b False s2)
           (minimax fuel eng (gameCopy eng (s ! game) m) (depth - 1) a b False) s1"
          by (rule child_s_frames)
      qed (rule extends_refl)
      then show ?thesis using False True by (simp add: Let_def)
    next
      case F: False
      have "frames
        (min_loop_s
          (\<lambda>m a b s1. case gameCopy_s eng game m s1 of
                           (copy, s2) \<Rightarrow> minimax_s fuel eng copy (depth - 1) a b True s2)
          (js_sort captures_first (moves eng (s ! game))) PosInf alpha beta s)
        (min_loop (\<lambda>m a b. minimax fuel eng (gameCopy eng (s ! game) m) (depth - 1) a b True)
          (js_sort captures_first (moves eng (s ! game))) PosInf alpha beta) s"
      proof (rule min_loop_s_frames[where s = s])
        fix m a b s1 assume "extends s s1"
        with IH g show "frames (case gameCopy_s eng game m s1 of
                   (copy, s2) \<Rightarrow> minimax_s fuel eng copy (depth - 1) a b True s2)
           (minimax fuel eng (gameCopy eng (s ! game) m) (depth - 1) a b True) s1"
          by (rule child_s_frames)
      qed (rule extends_refl)
      then show ?thesis using False F by (simp add: Let_def)
    qed
  qed
qed

lemma root_child_s_frames:
  assumes "game < length s" and "extends s s1" and "isMax = (turn eng (s ! game) = White)"
  shows "frames (root_child_s fuel eng game depth isMax m s1)
           (root_child fuel eng (s ! game) depth m) s1"
  unfolding root_child_s_def root_child_def assms(3)[symmetric]
  using minimax_s_frames assms(1,2) by (rule child_s_frames)


lemma collect_loop_s_frames:
  assumes "\<And>m s1. m \<in> set ms \<Longrightarrow> extends s s1 \<Longrightarrow> frames (child_s m s1) (child m) s1"
    and "extends s s1"
  shows "frames (collect_loop_s child_s ms acc s1) (collect_loop child ms acc) s1"
  using assms
proof (induction ms arbitrary: acc s1)
  case Nil
  show ?case by (simp add: frames_def extends_refl)
next
  case (Cons m ms)
  have fc: "frames (child_s m s1) (child m) s1" using Cons.prems by simp
  show ?case
  proof (cases "child_s m s1")
    case None
    then show ?thesis using fc by (simp add: frames_def)
  next
    case (Some p)
    obtain ev s2 where p: "p = (ev, s2)" by (cases p)
    have c: "child m = Some ev" and e12: "extends s1 s2"
      using fc Some p by (simp_all add: frames_def)
    have "extends s s2" using Cons.prems(2) e12 by (rule extends_trans)
    then have "frames (collect_loop_s child_s ms (acc @ [\<lparr>evaluation = ev, move = m\<rparr>]) s2)
                 (collect_loop child ms (acc @ [\<lparr>evaluation = ev, move = m\<rparr>])) s2"
      using Cons.prems(1) by (intro Cons.IH) simp_all
    then have "frames (collect_loop_s child_s ms (acc @ [\<lparr>evaluation = ev, move = m\<rparr>]) s2)
                 (collect_loop child ms (acc @ [\<lparr>evaluation = ev, move = m\<rparr>])) s1"
      using e12 by (rule frames_weaken)
    then show ?thesis using Some p c by simp
  qed
qed

lemma best_loop_s_frames:
  assumes "\<And>m s1. m \<in> set ms \<Longrightarrow> extends s s1 \<Longrightarrow> frames (child_s m s1) (child m) s1"
    and "extends s s1"
  shows "frames (best_loop_s child_s isMax ms bm bv s1) (best_loop child isMax ms bm bv) s1"
  using assms
proof (induction ms arbitrary: bm bv s1)
  case Nil
  show ?case by (simp add: frames_def extends_refl)
next
  case (Cons m ms)
  have fc: "frames (child_s m s1) (child m) s1" using Cons.prems by simp
  show ?case
  proof (cases "child_s m s1")
    case None
    then show ?thesis using fc by (simp add: frames_def)
  next
    case (Some p)
    obtain ev s2 where p: "p = (ev, s2)" by (cases p)
    have c: "child m = Some ev" and e12: "extends s1 s2"
      using fc Some p by (simp_all add: frames_def)
    have "extends s s2" using Cons.prems(2) e12 by (rule extends_trans)
    then have "\<And>bm' bv'. frames (best_loop_s child_s isMax ms bm' bv' s2)
                 (best_loop child isMax ms bm' bv') s2"
      using Cons.prems(1) by (intro Cons.IH) simp_all
    then have "\<And>bm' bv'. frames (best_loop_s child_s isMax ms bm' bv' s2)
                 (best_loop child isMax ms bm' bv') s1"
      using e12 by (rule frames_weaken)
    then show ?thesis using Some p c by (cases isMax) simp_all
  qed
qed

lemma findBestMove_s_frames:
  assumes "game < length s"
  shows "frames (findBestMove_s fuel eng game depth s) (findBestMove fuel eng (s ! game) depth) s"
proof (cases "moves eng (s ! game) = []")
  case True
  then show ?thesis
    by (simp add: findBestMove_s_def findBestMove_def frames_def extends_refl evaluateBoard_s_def)
next
  case False
  have "\<And>bm bv. frames
     (best_loop_s (root_child_s fuel eng game depth (turn eng (s ! game) = White))
        (turn eng (s ! game) = White) (js_sort root_cmp (moves eng (s ! game))) bm bv s)
     (best_loop (root_child fuel eng (s ! game) depth)
        (turn eng (s ! game) = White) (js_sort root_cmp (moves eng (s ! game))) bm bv) s"
  proof (rule best_loop_s_frames[where s = s])
    fix m s1 assume "extends s s1"
    with assms show "frames (root_child_s fuel eng game depth (turn eng (s ! game) = White) m s1)
           (root_child fuel eng (s ! game) depth m) s1"
      by (rule root_child_s_frames) simp
  qed (rule extends_refl)
  then show ?thesis using False
    by (simp add: findBestMove_s_def findBestMove_def Let_def root_child_def[abs_def])
qed

lemma frames_map:
  "frames res pure s \<Longrightarrow>
     frames (case res of None \<Rightarrow> None | Some (v, s') \<Rightarrow> Some (f v, s'))
       (case pure of None \<Rightarrow> None | Some v \<Rightarrow> Some (f v)) s"
  unfolding frames_def by (auto split: option.splits)

lemma findTopMoves_s_frames:
  assumes "game < length s"
  shows "frames (findTopMoves_s fuel eng game depth cnt s)
           (findTopMoves fuel eng (s ! game) depth cnt) s"
proof (cases "moves eng (s ! game) = []")
  case True
  then show ?thesis
    by (simp add: findTopMoves_s_def findTopMoves_def frames_def extends_refl)
next
  case False
  have "frames
     (collect_loop_s (root_child_s fuel eng game depth (turn eng (s ! game) = White))
        (moves eng (s ! game)) [] s)
     (collect_loop (root_child fuel eng (s ! game) depth) (moves eng (s ! game)) []) s"
  proof (rule collect_loop_s_frames[where s = s])
    fix m s1 assume "extends s s1"
    with assms show "frames (root_child_s fuel eng game depth (turn eng (s ! game) = White) m s1)
           (root_child fuel eng (s ! game) depth m) s1"
      by (rule root_child_s_frames) simp
  qed (rule extends_refl)
  from frames_map[OF this, of "\<lambda>evs. slice0 (js_sort (ranking_cmp (turn eng (s ! game) = White)) evs) cnt"]
  show ?thesis using False
    by (simp add: findTopMoves_s_def findTopMoves_def Let_def root_child_def[abs_def])
qed

lemma frames_fst: "frames res pure s \<Longrightarrow> map_option fst res = pure"
  unfolding frames_def by (auto split: option.splits)

lemma frames_store:
  "frames res pure s \<Longrightarrow> res = Some (v, s') \<Longrightarrow> g < length s \<Longrightarrow>
     take (length s) s' = s \<and> s' ! g = s ! g"
  unfolding frames_def using extends_nth[of s s' g] by (auto simp: extends_def)

lemma toy_store: "findBestMove_s 2 toy 1 2 [''c'', []]
   = Some (\<lparr>evaluation = Fin 100, bestMove = Some (toy_move ''e'' None)\<rparr>,
           [''c'', [], ''a'', ''ah'', ''aa'', ''ad'', ''c'', ''cb'', ''cd'', ''e''])"
  by (simp add: findBestMove_s_def root_child_s_def gameCopy_s_eq evaluateBoard_s_def
      numeral_2_eq_2 toy_run split del: if_split cong: if_weak_cong)

text \<open>
  C8: for a game object of the store, \<open>evaluateBoard\<close>, \<open>findTopMoves\<close> and \<open>findBestMove\<close>
  return what the functions of positions return on the state of the object, and leave
  every object that existed before the call as it was, the caller's game among them: the
  final store is the initial one followed by the copies the call made. The result depends
  on the state of the game object and the arguments only: a call on any object of any
  store that holds an equal state returns the same result.
\<close>

theorem search_frames_store:
  assumes "game < length s"
  shows "evaluateBoard_s eng game s = (evaluateBoard (board eng (s ! game)), s)
    \<and> frames (findTopMoves_s fuel eng game depth cnt s)
         (findTopMoves fuel eng (s ! game) depth cnt) s
    \<and> frames (findBestMove_s fuel eng game depth s) (findBestMove fuel eng (s ! game) depth) s
    \<and> (\<forall>r s'. findTopMoves_s fuel eng game depth cnt s = Some (r, s') \<longrightarrow>
          take (length s) s' = s \<and> s' ! game = s ! game)
    \<and> (\<forall>r s'. findBestMove_s fuel eng game depth s = Some (r, s') \<longrightarrow>
          take (length s) s' = s \<and> s' ! game = s ! game)
    \<and> (game2 < length s2 \<and> s2 ! game2 = s ! game \<longrightarrow>
          fst (evaluateBoard_s eng game2 s2) = fst (evaluateBoard_s eng game s)
        \<and> map_option fst (findTopMoves_s fuel eng game2 depth cnt s2)
            = map_option fst (findTopMoves_s fuel eng game depth cnt s)
        \<and> map_option fst (findBestMove_s fuel eng game2 depth s2)
            = map_option fst (findBestMove_s fuel eng game depth s))"
proof (intro conjI allI impI)
  show "evaluateBoard_s eng game s = (evaluateBoard (board eng (s ! game)), s)"
    by (simp add: evaluateBoard_s_def)
  show ft: "frames (findTopMoves_s fuel eng game depth cnt s)
         (findTopMoves fuel eng (s ! game) depth cnt) s"
    using assms by (rule findTopMoves_s_frames)
  show fb: "frames (findBestMove_s fuel eng game depth s)
         (findBestMove fuel eng (s ! game) depth) s"
    using assms by (rule findBestMove_s_frames)
  show "take (length s) s' = s" if "findTopMoves_s fuel eng game depth cnt s = Some (r, s')" for r s'
    using frames_store[OF ft that assms] by simp
  show "s' ! game = s ! game" if "findTopMoves_s fuel eng game depth cnt s = Some (r, s')" for r s'
    using frames_store[OF ft that assms] by simp
  show "take (length s) s' = s" if "findBestMove_s fuel eng game depth s = Some (r, s')" for r s'
    using frames_store[OF fb that assms] by simp
  show "s' ! game = s ! game" if "findBestMove_s fuel eng game depth s = Some (r, s')" for r s'
    using frames_store[OF fb that assms] by simp
  show "fst (evaluateBoard_s eng game2 s2) = fst (evaluateBoard_s eng game s)"
    if "game2 < length s2 \<and> s2 ! game2 = s ! game"
    using that by (simp add: evaluateBoard_s_def)
  show "map_option fst (findTopMoves_s fuel eng game2 depth cnt s2)
            = map_option fst (findTopMoves_s fuel eng game depth cnt s)"
    if "game2 < length s2 \<and> s2 ! game2 = s ! game"
    using that frames_fst[OF ft] frames_fst[OF findTopMoves_s_frames[of game2 s2 fuel eng depth cnt]]
    by simp
  show "map_option fst (findBestMove_s fuel eng game2 depth s2)
            = map_option fst (findBestMove_s fuel eng game depth s)"
    if "game2 < length s2 \<and> s2 ! game2 = s ! game"
    using that frames_fst[OF fb] frames_fst[OF findBestMove_s_frames[of game2 s2 fuel eng depth]]
    by simp
qed

theorem search_frames_store_witness:
  "(1::nat) < length [''c'', []]
   \<and> findBestMove_s 2 toy 1 2 [''c'', []]
       = Some (\<lparr>evaluation = Fin 100, bestMove = Some (toy_move ''e'' None)\<rparr>,
               [''c'', [], ''a'', ''ah'', ''aa'', ''ad'', ''c'', ''cb'', ''cd'', ''e''])
   \<and> evaluateBoard_s toy 1 [''c'', []] = (evaluateBoard (board toy ([''c'', []] ! 1)), [''c'', []])
   \<and> frames (findTopMoves_s 2 toy 1 2 5 [''c'', []]) (findTopMoves 2 toy ([''c'', []] ! 1) 2 5)
        [''c'', []]
   \<and> frames (findBestMove_s 2 toy 1 2 [''c'', []]) (findBestMove 2 toy ([''c'', []] ! 1) 2)
        [''c'', []]
   \<and> (0::nat) < length [[], ''a''] \<and> [[], ''a''] ! 0 = [''c'', []] ! 1
   \<and> map_option fst (findBestMove_s 2 toy 0 2 [[], ''a''])
        = map_option fst (findBestMove_s 2 toy 1 2 [''c'', []])"
proof -
  have h: "(1::nat) < length [''c'', []]" by simp
  have g: "(0::nat) < length [[], ''a''] \<and> [[], ''a''] ! 0 = [''c'', []] ! 1" by simp
  show ?thesis
    using h g search_frames_store[OF h, of toy 2 2 5 0 "[[], ''a'']"] toy_store by blast
qed

section \<open>The starting position at depth 2\<close>

lemma square_value_placed: "square_value b row col = placed_value (b row col) row col"
  by (simp add: placed_value_def square_value_def visit_square_def)

lemma placed_value_None: "placed_value None row col = 0"
  by (simp add: placed_value_def square_value_def visit_square_def)

lemma evaluateBoard_set_sum:
  "evaluateBoard b = (\<Sum>(r, c)\<in>{0..<8} \<times> {0..<8}. placed_value (b r c) r c)"
proof -
  have "evaluateBoard b = (\<Sum>r\<in>{0..<8}. \<Sum>c\<in>{0..<8}. square_value b r c)"
    unfolding evaluateBoard_sum row_value_def
    by (simp add: interv_sum_list_conv_sum_set_nat)
  also have "\<dots> = (\<Sum>(r, c)\<in>{0..<8} \<times> {0..<8}. square_value b r c)"
    by (rule sum.cartesian_product)
  finally show ?thesis by (simp add: square_value_placed)
qed

lemma same_board_eval: "same_board b b' \<Longrightarrow> evaluateBoard b = evaluateBoard b'"
  unfolding evaluateBoard_set_sum same_board_def by (rule sum.cong) auto

lemma sum_two_points:
  fixes f g :: "'a \<Rightarrow> int"
  assumes "finite S" and "a \<in> S" and "d \<in> S" and "a \<noteq> d"
    and "\<And>x. x \<in> S \<Longrightarrow> x \<noteq> a \<Longrightarrow> x \<noteq> d \<Longrightarrow> g x = f x"
  shows "sum g S = sum f S - f a - f d + g a + g d"
proof -
  have d: "d \<in> S - {a}" using assms by simp
  have fin: "finite (S - {a})" using assms by simp
  have "sum g (S - {a} - {d}) = sum f (S - {a} - {d})"
    by (rule sum.cong) (use assms(5) in auto)
  moreover have "sum g S = g a + (g d + sum g (S - {a} - {d}))"
    using sum.remove[OF assms(1,2), of g] sum.remove[OF fin d, of g] by simp
  moreover have "sum f S = f a + (f d + sum f (S - {a} - {d}))"
    using sum.remove[OF assms(1,2), of f] sum.remove[OF fin d, of f] by simp
  ultimately show ?thesis by simp
qed

lemma relocate_eval:
  assumes "fst (square_rc f) < 8" and "snd (square_rc f) < 8"
    and "fst (square_rc t) < 8" and "snd (square_rc t) < 8"
    and "square_rc f \<noteq> square_rc t"
    and "b (fst (square_rc t)) (snd (square_rc t)) = None"
  shows "evaluateBoard (relocate b f t) = evaluateBoard b + gain b f t"
proof -
  let ?S = "{0..<8::nat} \<times> {0..<8::nat}"
  let ?g = "\<lambda>(r, c). placed_value (relocate b f t r c) r c"
  let ?f = "\<lambda>(r, c). placed_value (b r c) r c"
  have "sum ?g ?S = sum ?f ?S - ?f (square_rc f) - ?f (square_rc t)
          + ?g (square_rc f) + ?g (square_rc t)"
  proof (rule sum_two_points)
    show "finite ?S" by simp
    show "square_rc f \<in> ?S" using assms(1,2) by (cases "square_rc f") simp
    show "square_rc t \<in> ?S" using assms(3,4) by (cases "square_rc t") simp
    show "square_rc f \<noteq> square_rc t" by (rule assms(5))
    show "?g x = ?f x" if "x \<in> ?S" "x \<noteq> square_rc f" "x \<noteq> square_rc t" for x
      using that by (cases x) (simp add: relocate_def)
  qed
  moreover have "?f (square_rc t) = 0"
    using assms(6) by (cases "square_rc t") (simp add: placed_value_None)
  moreover have "?g (square_rc f) = 0"
    using assms(5) by (cases "square_rc f") (auto simp: relocate_def placed_value_None)
  moreover have "?g (square_rc t) - ?f (square_rc f) = gain b f t"
    by (cases "square_rc t"; cases "square_rc f") (simp add: relocate_def gain_def Let_def)
  ultimately show ?thesis unfolding evaluateBoard_set_sum by simp
qed

lemma relocate_far:
  "4 \<le> fst (square_rc f) \<Longrightarrow> 4 \<le> fst (square_rc t) \<Longrightarrow> row < 4 \<Longrightarrow>
     relocate b f t row col = b row col"
  by (cases "square_rc f"; cases "square_rc t") (auto simp: relocate_def)

lemma start_board_eval: "evaluateBoard start_board = 0"
  by (simp add: evaluateBoard_def upt8 visit_square_def start_board_def start_rows_def
      pieceScore_def PAWN_PST_def KNIGHT_PST_def BISHOP_PST_def ROOK_PST_def QUEEN_PST_def
      KING_PST_def)


lemma white_facts:
  "\<forall>m\<in>set white_openings.
      4 \<le> fst (square_rc (from_sq m)) \<and> fst (square_rc (from_sq m)) < 8
    \<and> snd (square_rc (from_sq m)) < 8
    \<and> 4 \<le> fst (square_rc (to_sq m)) \<and> fst (square_rc (to_sq m)) < 8
    \<and> snd (square_rc (to_sq m)) < 8
    \<and> square_rc (from_sq m) \<noteq> square_rc (to_sq m)
    \<and> start_board (fst (square_rc (to_sq m))) (snd (square_rc (to_sq m))) = None
    \<and> gain start_board (from_sq m) (to_sq m) \<le> 50"
  by (simp add: white_openings_def quiet_def square_rc_def start_board_def start_rows_def
      gain_def placed_value_def square_value_def visit_square_def pieceScore_def
      PAWN_PST_def KNIGHT_PST_def)

lemma black_facts:
  "\<forall>m\<in>set black_openings.
      fst (square_rc (from_sq m)) < 4 \<and> snd (square_rc (from_sq m)) < 8
    \<and> fst (square_rc (to_sq m)) < 4 \<and> snd (square_rc (to_sq m)) < 8
    \<and> square_rc (from_sq m) \<noteq> square_rc (to_sq m)
    \<and> start_board (fst (square_rc (to_sq m))) (snd (square_rc (to_sq m))) = None
    \<and> - 50 \<le> gain start_board (from_sq m) (to_sq m)"
  by (simp add: black_openings_def quiet_def square_rc_def start_board_def start_rows_def
      gain_def placed_value_def square_value_def visit_square_def pieceScore_def
      PAWN_PST_def KNIGHT_PST_def)

lemma best_gains:
  "quiet ''b1'' ''c3'' \<in> set white_openings" "gain start_board ''b1'' ''c3'' = 50"
  "quiet ''b8'' ''c6'' \<in> set black_openings" "gain start_board ''b8'' ''c6'' = - 50"
  by (simp_all add: white_openings_def black_openings_def quiet_def square_rc_def
      start_board_def start_rows_def gain_def placed_value_def square_value_def
      visit_square_def pieceScore_def KNIGHT_PST_def)

lemma two_moves_eval:
  assumes "m \<in> set white_openings" and "m' \<in> set black_openings"
  shows "evaluateBoard (relocate (relocate start_board (from_sq m) (to_sq m))
            (from_sq m') (to_sq m'))
         = gain start_board (from_sq m) (to_sq m) + gain start_board (from_sq m') (to_sq m')"
proof -
  let ?b1 = "relocate start_board (from_sq m) (to_sq m)"
  from white_facts assms(1) have w:
    "4 \<le> fst (square_rc (from_sq m))" "fst (square_rc (from_sq m)) < 8"
    "snd (square_rc (from_sq m)) < 8"
    "4 \<le> fst (square_rc (to_sq m))" "fst (square_rc (to_sq m)) < 8"
    "snd (square_rc (to_sq m)) < 8"
    "square_rc (from_sq m) \<noteq> square_rc (to_sq m)"
    "start_board (fst (square_rc (to_sq m))) (snd (square_rc (to_sq m))) = None"
    by blast+
  from black_facts assms(2) have b:
    "fst (square_rc (from_sq m')) < 4" "snd (square_rc (from_sq m')) < 8"
    "fst (square_rc (to_sq m')) < 4" "snd (square_rc (to_sq m')) < 8"
    "square_rc (from_sq m') \<noteq> square_rc (to_sq m')"
    "start_board (fst (square_rc (to_sq m'))) (snd (square_rc (to_sq m'))) = None"
    by blast+
  have far: "\<And>row col. row < 4 \<Longrightarrow> ?b1 row col = start_board row col"
    using w(1,4) by (rule relocate_far)
  have e1: "evaluateBoard ?b1 = gain start_board (from_sq m) (to_sq m)"
    using relocate_eval[of "from_sq m" "to_sq m" start_board] w by (simp add: start_board_eval)
  have "?b1 (fst (square_rc (to_sq m'))) (snd (square_rc (to_sq m'))) = None"
    using far[OF b(3)] b(6) by simp
  then have "evaluateBoard (relocate ?b1 (from_sq m') (to_sq m'))
      = evaluateBoard ?b1 + gain ?b1 (from_sq m') (to_sq m')"
    using b by (intro relocate_eval) simp_all
  moreover have "gain ?b1 (from_sq m') (to_sq m') = gain start_board (from_sq m') (to_sq m')"
    using far[OF b(1)] by (simp add: gain_def)
  ultimately show ?thesis using e1 by simp
qed

lemma fold_max_absorb:
  "(\<And>m. m \<in> set ms \<Longrightarrow> f m \<le> v) \<Longrightarrow> fold (\<lambda>m acc. max acc (f m)) ms (v::jsnum) = v"
  by (induction ms) (simp_all add: max_absorb1)

lemma fold_min_absorb:
  "(\<And>m. m \<in> set ms \<Longrightarrow> v \<le> f m) \<Longrightarrow> fold (\<lambda>m acc. min acc (f m)) ms (v::jsnum) = v"
  by (induction ms) (simp_all add: min_absorb1)

lemma fold_max_eqI:
  assumes "\<And>m. m \<in> set ms \<Longrightarrow> f m \<le> v" and "\<exists>m\<in>set ms. f m = v" and "a \<le> v"
  shows "fold (\<lambda>m acc. max acc (f m)) ms a = (v::jsnum)"
  using assms
proof (induction ms arbitrary: a)
  case Nil
  then show ?case by simp
next
  case (Cons x xs)
  have le: "\<And>m. m \<in> set xs \<Longrightarrow> f m \<le> v" using Cons.prems(1) by simp
  have xv: "f x \<le> v" using Cons.prems(1) by simp
  show ?case
  proof (cases "\<exists>m\<in>set xs. f m = v")
    case True
    have "max a (f x) \<le> v" using Cons.prems(3) xv by simp
    with le True have "fold (\<lambda>m acc. max acc (f m)) xs (max a (f x)) = v" by (rule Cons.IH)
    then show ?thesis by simp
  next
    case False
    then have "f x = v" using Cons.prems(2) by auto
    then have "max a (f x) = v" using Cons.prems(3) by (simp add: max_absorb2)
    then show ?thesis using fold_max_absorb[where ms = xs and f = f and v = v] le by simp
  qed
qed

lemma fold_min_eqI:
  assumes "\<And>m. m \<in> set ms \<Longrightarrow> v \<le> f m" and "\<exists>m\<in>set ms. f m = v" and "v \<le> a"
  shows "fold (\<lambda>m acc. min acc (f m)) ms a = (v::jsnum)"
  using assms
proof (induction ms arbitrary: a)
  case Nil
  then show ?case by simp
next
  case (Cons x xs)
  have le: "\<And>m. m \<in> set xs \<Longrightarrow> v \<le> f m" using Cons.prems(1) by simp
  have xv: "v \<le> f x" using Cons.prems(1) by simp
  show ?case
  proof (cases "\<exists>m\<in>set xs. f m = v")
    case True
    have "v \<le> min a (f x)" using Cons.prems(3) xv by simp
    with le True have "fold (\<lambda>m acc. min acc (f m)) xs (min a (f x)) = v" by (rule Cons.IH)
    then show ?thesis by simp
  next
    case False
    then have "f x = v" using Cons.prems(2) by auto
    then have "min a (f x) = v" using Cons.prems(3) by (simp add: min_absorb2)
    then show ?thesis using fold_min_absorb[where ms = xs and f = f and v = v] le by simp
  qed
qed

lemma opening_reply_value:
  assumes "opens_like_chess eng game" and "m \<in> set white_openings"
  shows "minimax_full eng (Suc 0) (gameCopy eng game m) False
         = Fin (gain start_board (from_sq m) (to_sq m) - 50)"
proof -
  let ?c = "gameCopy eng game m"
  let ?gw = "gain start_board (from_sq m) (to_sq m)"
  from assms have ng: "\<not> isGameOver eng ?c"
    and ms: "set (moves eng ?c) = set black_openings"
    and bd: "\<And>m'. m' \<in> set black_openings \<Longrightarrow>
          same_board (board eng (gameCopy eng ?c m'))
            (relocate (relocate start_board (from_sq m) (to_sq m)) (from_sq m') (to_sq m'))"
    unfolding opens_like_chess_def by blast+
  have leaf: "\<And>m'. m' \<in> set black_openings \<Longrightarrow>
      evaluateBoard (board eng (gameCopy eng ?c m')) = ?gw + gain start_board (from_sq m') (to_sq m')"
    using same_board_eval[OF bd] two_moves_eval[OF assms(2)] by simp
  have "fold (\<lambda>m' acc. min acc (Fin (evaluateBoard (board eng (gameCopy eng ?c m')))))
          (moves eng ?c) PosInf = Fin (?gw - 50)"
  proof (rule fold_min_eqI)
    fix m' assume "m' \<in> set (moves eng ?c)"
    then have m': "m' \<in> set black_openings" using ms by simp
    then have "- 50 \<le> gain start_board (from_sq m') (to_sq m')" using black_facts by blast
    then show "Fin (?gw - 50) \<le> Fin (evaluateBoard (board eng (gameCopy eng ?c m')))"
      using leaf[OF m'] by simp
  next
    have "quiet ''b8'' ''c6'' \<in> set (moves eng ?c)" using ms best_gains(3) by simp
    moreover have "Fin (evaluateBoard (board eng (gameCopy eng ?c (quiet ''b8'' ''c6''))))
        = Fin (?gw - 50)"
      using leaf[OF best_gains(3)] best_gains(4) by (simp add: quiet_def)
    ultimately show "\<exists>m'\<in>set (moves eng ?c).
        Fin (evaluateBoard (board eng (gameCopy eng ?c m'))) = Fin (?gw - 50)" by blast
  next
    show "Fin (?gw - 50) \<le> PosInf" by simp
  qed
  then show ?thesis using ng by simp
qed

lemma opening_value:
  assumes "opens_like_chess eng game"
  shows "findBestMove_full eng game 2 = Fin 0"
proof -
  from assms have w: "turn eng game = White" and ms: "set (moves eng game) = set white_openings"
    unfolding opens_like_chess_def by blast+
  have ne: "moves eng game \<noteq> []" using ms best_gains(1) by auto
  have "fold (\<lambda>m acc. max acc (minimax_full eng (Suc 0) (gameCopy eng game m) False))
          (moves eng game) NegInf = Fin 0"
  proof (rule fold_max_eqI)
    fix m assume "m \<in> set (moves eng game)"
    then have m: "m \<in> set white_openings" using ms by simp
    then have "gain start_board (from_sq m) (to_sq m) \<le> 50" using white_facts by blast
    then show "minimax_full eng (Suc 0) (gameCopy eng game m) False \<le> Fin 0"
      using opening_reply_value[OF assms m] by simp
  next
    have "quiet ''b1'' ''c3'' \<in> set (moves eng game)" using ms best_gains(1) by simp
    moreover have "minimax_full eng (Suc 0) (gameCopy eng game (quiet ''b1'' ''c3'')) False = Fin 0"
      using opening_reply_value[OF assms best_gains(1)] best_gains(2) by (simp add: quiet_def)
    ultimately show "\<exists>m\<in>set (moves eng game).
        minimax_full eng (Suc 0) (gameCopy eng game m) False = Fin 0" by blast
  next
    show "NegInf \<le> Fin 0" by simp
  qed
  then show ?thesis using ne w by (simp add: findBestMove_full_def numeral_2_eq_2)
qed


lemma openings_count: "length white_openings = 20" "distinct white_openings"
  by (simp_all add: white_openings_def quiet_def)

lemma findBestMove_opening:
  assumes "opens_like_chess eng game" and "2 \<le> fuel"
  shows "\<exists>m. findBestMove fuel eng game 2 = Some \<lparr>evaluation = Fin 0, bestMove = Some m\<rparr>
            \<and> m \<in> set (moves eng game) \<and> m \<in> set white_openings"
proof -
  from assms(1) have ms: "set (moves eng game) = set white_openings"
    unfolding opens_like_chess_def by blast
  have ne: "moves eng game \<noteq> []" using ms best_gains(1) by auto
  have d: "(1::int) \<le> 2" "nat 2 \<le> fuel" using assms(2) by simp_all
  from findBestMove_first_best[OF ne d] obtain m v where
    r: "findBestMove fuel eng game 2 = Some \<lparr>evaluation = v, bestMove = Some m\<rparr>"
    and m: "m \<in> set (moves eng game)" by blast
  have "map_option evaluation (findBestMove fuel eng game 2) = Some (findBestMove_full eng game (nat 2))"
    using d by (rule findBestMove_exact)
  then have "v = Fin 0" using r opening_value[OF assms(1)] by simp
  with r m ms show ?thesis by auto
qed

lemma len2: "length f = 2 \<Longrightarrow> \<exists>a b. f = [a, b]"
  by (auto simp: numeral_2_eq_2 length_Suc_conv)

lemma played_two:
  assumes "length f = 2" "length t = 2" "length f' = 2" "length t' = 2"
  shows "played (f @ t @ f' @ t') = [(f, t), (f', t')]"
proof -
  from assms obtain a b c d a' b' c' d' where
    "f = [a, b]" "t = [c, d]" "f' = [a', b']" "t' = [c', d']"
    using len2 by metis
  then show ?thesis by simp
qed

lemma opening_squares:
  "\<forall>m\<in>set white_openings. length (from_sq m) = 2 \<and> length (to_sq m) = 2"
  "\<forall>m\<in>set black_openings. length (from_sq m) = 2 \<and> length (to_sq m) = 2"
  by (simp_all add: white_openings_def black_openings_def quiet_def)

lemma two_plies_simps:
  "board two_plies s = fold (\<lambda>(f, t) b. relocate b f t) (played s) start_board"
  "moves two_plies s = (if s = [] then white_openings
                        else if length s = 4 then black_openings else [])"
  "make_move two_plies s m = s @ from_sq m @ to_sq m"
  "isGameOver two_plies s = (8 \<le> length s)"
  "turn two_plies s = (if even (length s div 4) then White else Black)"
  "fen two_plies s = s" "new_Chess two_plies s = s"
  by (simp_all add: two_plies_def)

lemma two_plies_opens: "opens_like_chess two_plies []"
proof -
  have a: "same_board (board two_plies []) start_board"
    by (simp add: two_plies_simps same_board_def)
  have b: "turn two_plies [] = White" by (simp add: two_plies_simps)
  have c: "set (moves two_plies []) = set white_openings" by (simp add: two_plies_simps)
  have d: "\<not> isGameOver two_plies (gameCopy two_plies [] m)
          \<and> set (moves two_plies (gameCopy two_plies [] m)) = set black_openings
          \<and> (\<forall>m'\<in>set black_openings.
                same_board (board two_plies (gameCopy two_plies (gameCopy two_plies [] m) m'))
                  (relocate (relocate start_board (from_sq m) (to_sq m)) (from_sq m') (to_sq m')))"
    if m: "m \<in> set white_openings" for m
  proof -
    have l: "length (from_sq m) = 2" "length (to_sq m) = 2" using opening_squares(1) m by blast+
    have g: "gameCopy two_plies [] m = from_sq m @ to_sq m"
      by (simp add: gameCopy_def two_plies_simps)
    have "same_board (board two_plies (gameCopy two_plies (gameCopy two_plies [] m) m'))
                  (relocate (relocate start_board (from_sq m) (to_sq m)) (from_sq m') (to_sq m'))"
      if m': "m' \<in> set black_openings" for m'
    proof -
      have l': "length (from_sq m') = 2" "length (to_sq m') = 2"
        using opening_squares(2) m' by blast+
      have "gameCopy two_plies (gameCopy two_plies [] m) m'
            = from_sq m @ to_sq m @ from_sq m' @ to_sq m'"
        by (simp add: gameCopy_def two_plies_simps)
      then show ?thesis using played_two[OF l l'] by (simp add: two_plies_simps same_board_def)
    qed
    moreover have "from_sq m @ to_sq m \<noteq> []" using l by auto
    moreover have "length (from_sq m @ to_sq m) = 4" using l by simp
    ultimately show ?thesis unfolding g by (auto simp add: two_plies_simps)
  qed
  show ?thesis unfolding opens_like_chess_def using a b c d by blast
qed

text \<open>
  C7: on the starting position of chess, that is for every rules engine and position
  that open like chess, \<open>findBestMove\<close> at depth 2 (with two nested calls available)
  returns the evaluation 0 and a move, one of the 20 first moves of White that the engine
  lists.
\<close>

theorem opening_depth_two:
  assumes "opens_like_chess eng game" and "2 \<le> fuel"
  shows "\<exists>m. findBestMove fuel eng game 2 = Some \<lparr>evaluation = Fin 0, bestMove = Some m\<rparr>
            \<and> m \<in> set (moves eng game) \<and> m \<in> set white_openings
            \<and> length white_openings = 20 \<and> distinct white_openings"
  using findBestMove_opening[OF assms] openings_count by blast

theorem opening_depth_two_witness:
  "opens_like_chess two_plies [] \<and> (2::nat) \<le> 2
   \<and> (\<exists>m. findBestMove 2 two_plies [] 2 = Some \<lparr>evaluation = Fin 0, bestMove = Some m\<rparr>
            \<and> m \<in> set (moves two_plies []) \<and> m \<in> set white_openings
            \<and> length white_openings = 20 \<and> distinct white_openings)"
proof -
  have h: "opens_like_chess two_plies []" "(2::nat) \<le> 2" by (simp_all add: two_plies_opens)
  show ?thesis using h opening_depth_two[OF h] by blast
qed

end
